theory Spec2Isabelle
  imports Main "HOL-Library.Word"
begin

section \<open>The Kubernetes objects read by the collector\<close>

text \<open>
  The collector reads a small part of \<^verbatim>\<open>k8s.io/api/core/v1\<close>: of a pod its
  \<^verbatim>\<open>ObjectMeta\<close> (name, namespace, labels), the containers of its \<^verbatim>\<open>Spec\<close>
  and the pod IP of its \<^verbatim>\<open>Status\<close>; of a container its liveness probe; of a probe
  its HTTPGet handler. A Go pointer that may be nil is an \<open>option\<close>, a Go map is a
  partial function, a slice is a list.
\<close>

type_synonym URIScheme = string

definition URISchemeHTTP :: URIScheme where
  "URISchemeHTTP = ''HTTP''"

definition URISchemeHTTPS :: URIScheme where
  "URISchemeHTTPS = ''HTTPS''"

datatype intstr_Type = IntT | StringT

record IntOrString =
  Type :: intstr_Type
  IntVal :: "32 word"
  StrVal :: string

text \<open>\<^verbatim>\<open>intstr.FromInt32\<close> and \<^verbatim>\<open>intstr.FromString\<close>: the two ways a port is
  declared, by number or by name. The field that is not declared keeps Go's zero value.\<close>

definition FromInt32 :: "32 word \<Rightarrow> IntOrString" where
  "FromInt32 v = \<lparr>Type = IntT, IntVal = v, StrVal = ''''\<rparr>"

definition FromString :: "string \<Rightarrow> IntOrString" where
  "FromString v = \<lparr>Type = StringT, IntVal = 0, StrVal = v\<rparr>"

record HTTPGetAction =
  Path :: string
  Port :: IntOrString
  Host :: string
  Scheme :: URIScheme

record Probe =
  HTTPGet :: "HTTPGetAction option"

record Container =
  LivenessProbe :: "Probe option"

record ObjectMeta =
  Name :: string
  Namespace :: string
  Labels :: "string \<rightharpoonup> string"

record PodSpec =
  Containers :: "Container list"

record PodStatus =
  PodIP :: string

record Pod =
  ObjectMeta :: ObjectMeta
  Spec :: PodSpec
  Status :: PodStatus


section \<open>The metric and its descriptor\<close>

record Desc =
  fqName :: string
  helpStr :: string
  variableLabels :: "string list"

datatype ValueType = CounterValue | GaugeValue | UntypedValue

text \<open>
  A constant metric as \<^verbatim>\<open>prometheus.MustNewConstMetric\<close> builds it, with the
  timestamp that \<^verbatim>\<open>prometheus.NewMetricWithTimestamp\<close> attaches. The value is a
  \<^verbatim>\<open>float64\<close>; every value the collector stores is the conversion of an
  \<^verbatim>\<open>int64\<close>, hence an integer, and is kept as such (see \<open>float64\<close> below).
\<close>

record Metric =
  desc :: Desc
  valType :: ValueType
  val :: int
  labelValues :: "string list"
  timestamp :: "int option"

datatype panic =
  IndexOutOfRange
| NilDesc
| InconsistentCardinality
| ListFailed string
| NegativeWaitGroup

text \<open>\<^verbatim>\<open>newGlobalMetric\<close> (collector.go, line 42).\<close>

definition newGlobalMetric :: "string \<Rightarrow> string \<Rightarrow> string list \<Rightarrow> Desc" where
  "newGlobalMetric metricName docString labels =
     \<lparr>fqName = metricName, helpStr = docString, variableLabels = labels\<rparr>"

text \<open>
  The \<^verbatim>\<open>Metrics\<close> struct (line 26). Its \<^verbatim>\<open>clientset\<close> and \<^verbatim>\<open>httpClient\<close> are
  the outside world: what they answer is a parameter of the functions below. The
  mutex is part of the state of the collector under concurrent calls, further down.
\<close>

record Metrics =
  metrics :: "string \<rightharpoonup> Desc"

text \<open>The \<^verbatim>\<open>metrics\<close> map that \<^verbatim>\<open>NewMetrics\<close> builds (lines 87 to 93).\<close>

definition NewMetrics :: Metrics where
  "NewMetrics =
     \<lparr>metrics =
        [''container_health_check_duration_millisecond'' \<mapsto>
           newGlobalMetric ''container_health_check_duration_millisecond''
             ''The time(millisecond) taken to invoke the health check interface''
             [''namespace'', ''container_name'', ''pod_name'']]\<rparr>"

text \<open>
  \<^verbatim>\<open>MustNewConstMetric\<close> panics when the descriptor is nil (a key missing from the
  map) and when the number of label values is not the number of variable labels. The
  library also refuses a label value that is not valid UTF-8; the label values here are a
  pod's namespace, \<open>app\<close> label and name, which the cluster API restricts to ASCII
  letters, digits and a few punctuation marks, and that check is left out.
\<close>

definition MustNewConstMetric ::
    "Desc option \<Rightarrow> ValueType \<Rightarrow> int \<Rightarrow> string list \<Rightarrow> panic + Metric" where
  "MustNewConstMetric d vt v lvs =
     (case d of
        None \<Rightarrow> Inl NilDesc
      | Some d' \<Rightarrow>
          if length lvs \<noteq> length (variableLabels d') then Inl InconsistentCardinality
          else Inr \<lparr>desc = d', valType = vt, val = v, labelValues = lvs, timestamp = None\<rparr>)"

definition NewMetricWithTimestamp :: "int \<Rightarrow> Metric \<Rightarrow> Metric" where
  "NewMetricWithTimestamp t m = m\<lparr>timestamp := Some t\<rparr>"


section \<open>Go's conversions\<close>

text \<open>\<^verbatim>\<open>strconv.Itoa\<close>: the decimal digits of an integer, with a sign when negative.\<close>

fun digits :: "nat \<Rightarrow> string" where
  "digits n =
     (if n < 10 then [''0123456789'' ! n]
      else digits (n div 10) @ [''0123456789'' ! (n mod 10)])"

declare digits.simps [simp del]

definition Itoa :: "int \<Rightarrow> string" where
  "Itoa i = (if i < 0 then CHR ''-'' # digits (nat (- i)) else digits (nat i))"

text \<open>
  \<^verbatim>\<open>float64(d)\<close> for an \<^verbatim>\<open>int64\<close>: exact up to \<open>2 ^ 53\<close> in absolute value,
  and beyond that rounded to 53 significant bits, ties to even. The result is always an
  integer.
\<close>

fun bit_len :: "nat \<Rightarrow> nat" where
  "bit_len n = (if n = 0 then 0 else Suc (bit_len (n div 2)))"

declare bit_len.simps [simp del]

definition float64 :: "int \<Rightarrow> int" where
  "float64 i =
     (if \<bar>i\<bar> \<le> 2 ^ 53 then i
      else
        let a = nat \<bar>i\<bar>;
            e = bit_len a - 53;
            q = a div 2 ^ e;
            r = a mod 2 ^ e;
            h = 2 ^ (e - 1);
            q' = (if h < r \<or> (r = h \<and> odd q) then q + 1 else q)
        in sgn i * int (q' * 2 ^ e))"


section \<open>The outside world of one probe task\<close>

text \<open>
  What \<^verbatim>\<open>c.httpClient.Get\<close> returns for a URL (a response, an error, or in
  Go's redirect corner case both), what \<^verbatim>\<open>time.Since(start)\<close> reads once the
  GET to that URL has returned (a \<^verbatim>\<open>time.Duration\<close>, an \<^verbatim>\<open>int64\<close> count of
  nanoseconds), and what \<^verbatim>\<open>time.Now()\<close> reads when the metric is sent.
\<close>

record Response =
  StatusCode :: int

record get_result =
  resp :: "Response option"
  err :: "string option"

type_synonym Duration = "64 word"

record runtime =
  Get :: "string \<Rightarrow> get_result"
  Since :: "string \<Rightarrow> Duration"
  Now :: int


section \<open>healthCheck\<close>

text \<open>
  What one run of \<^verbatim>\<open>healthCheck\<close> does to the world: the URLs it requests and
  the metrics it sends on the channel, each in order.
\<close>

record effects =
  requests :: "string list"
  sent :: "Metric list"

text \<open>
  \<^verbatim>\<open>healthCheck\<close> (lines 154 to 198), without the deferred
  \<^verbatim>\<open>waitGroup.Done()\<close>, which belongs to the cycle. Indexing
  \<^verbatim>\<open>spec.Containers[0]\<close> panics on an empty slice; \<^verbatim>\<open>labels["app"]\<close> is the
  empty string when the key is missing. The response is only closed (lines 188 to 190),
  which sends nothing and changes no value.
\<close>

definition healthCheck :: "runtime \<Rightarrow> Metrics \<Rightarrow> Pod \<Rightarrow> panic + effects" where
  "healthCheck rt c pod =
     (let meta = ObjectMeta pod;
          spec = Spec pod;
          status = Status pod;
          podName = Name meta;
          labels = Labels meta;
          containerName = (case labels ''app'' of None \<Rightarrow> '''' | Some v \<Rightarrow> v)
      in case Containers spec of
           [] \<Rightarrow> Inl IndexOutOfRange
         | c0 # _ \<Rightarrow>
             (case LivenessProbe c0 of
                None \<Rightarrow> Inr \<lparr>requests = [], sent = []\<rparr>
              | Some livenessProbe \<Rightarrow>
                  (case HTTPGet livenessProbe of
                     None \<Rightarrow> Inr \<lparr>requests = [], sent = []\<rparr>
                   | Some httpGet \<Rightarrow>
                       let podIP = PodIP status;
                           scheme = (if URISchemeHTTP = Scheme httpGet then ''http://''
                                     else ''https://'');
                           url = scheme @ podIP @ '':''
                                   @ Itoa (sint (IntVal (Port httpGet))) @ Path httpGet;
                           r = Get rt url;
                           duration = (if err r \<noteq> None then - 1 else Since rt url)
                       in (case MustNewConstMetric
                                  (metrics c ''container_health_check_duration_millisecond'')
                                  GaugeValue (float64 (sint duration))
                                  [Namespace meta, containerName, podName] of
                             Inl p \<Rightarrow> Inl p
                           | Inr metric \<Rightarrow>
                               Inr \<lparr>requests = [url],
                                    sent = [NewMetricWithTimestamp (Now rt) metric]\<rparr>))))"


section \<open>Collect: one collection cycle\<close>

text \<open>
  \<^verbatim>\<open>Collect\<close> (lines 111 to 152) starts one goroutine per pod and waits for all of
  them, so a cycle is a transition system: the main goroutine walks the loop over
  \<^verbatim>\<open>pods.Items\<close> and then sits in \<^verbatim>\<open>wg.Wait()\<close>, and every goroutine it has
  started runs \<^verbatim>\<open>healthCheck\<close>. A goroutine is numbered by the position of its pod
  in the list. It first runs \<^verbatim>\<open>healthCheck\<close> up to the channel send (\<open>Start\<close>),
  then sends what it has to send (\<open>Sending\<close>), and last runs the deferred
  \<^verbatim>\<open>waitGroup.Done()\<close> (\<open>Finished\<close>). The channel is what has been sent on it so
  far, each metric tagged with the number of the goroutine that sent it; its reader, the
  registry, takes every metric that is sent.

  A goroutine that panics does not end the process at once. Go first runs the
  goroutine's deferred calls, here \<^verbatim>\<open>waitGroup.Done()\<close> (line 155), and only then
  exits the process, while the other goroutines go on running: the goroutine is
  \<open>Panicking\<close> until its deferred call has run and \<open>Dying\<close> from then until the
  process exits. In between, the wait group can reach zero and \<^verbatim>\<open>Collect\<close> can
  return.
\<close>

datatype task =
  Start Pod
| Sending "Metric list"
| Panicking panic
| Dying panic
| Finished

datatype main_pc = ForRange "Pod list" | Returned

record cycle =
  pc :: main_pc
  tasks :: "task list"
  wg :: int
  ch :: "(nat \<times> Metric) list"

text \<open>
  Lines 124 to 141: a failed \<^verbatim>\<open>List\<close> call panics; otherwise the loop starts on
  \<^verbatim>\<open>pods.Items\<close> with a fresh wait group.
\<close>

definition Collect_init :: "string + Pod list \<Rightarrow> panic + cycle" where
  "Collect_init listing =
     (case listing of
        Inl e \<Rightarrow> Inl (ListFailed e)
      | Inr items \<Rightarrow> Inr \<lparr>pc = ForRange items, tasks = [], wg = 0, ch = []\<rparr>)"

text \<open>
  Who moves next: the main goroutine in its loop (\<open>Spawn\<close>: \<^verbatim>\<open>wg.Add(1)\<close> and
  \<^verbatim>\<open>go healthCheck(...)\<close>), goroutine \<open>i\<close> (\<open>Run i\<close>), or the main goroutine
  leaving \<^verbatim>\<open>wg.Wait()\<close> (\<open>Wait\<close>), which it can only when the loop is over and the
  counter is zero. \<open>None\<close> means that the move is not possible in this state. The
  last move of a goroutine that is \<open>Dying\<close> is the exit of the process, with the
  goroutine's panic as the result. A \<^verbatim>\<open>Done()\<close> that would make the counter
  negative panics in its turn, after the counter has been changed.
\<close>

datatype action = Spawn | Run nat | Wait

definition Collect_step ::
    "(nat \<Rightarrow> runtime) \<Rightarrow> Metrics \<Rightarrow> action \<Rightarrow> cycle \<Rightarrow> (panic + cycle) option" where
  "Collect_step rt c a s =
     (case a of
        Spawn \<Rightarrow>
          (case pc s of
             ForRange (item # rest) \<Rightarrow>
               Some (Inr (s\<lparr>pc := ForRange rest, wg := wg s + 1,
                              tasks := tasks s @ [Start item]\<rparr>))
           | _ \<Rightarrow> None)
      | Run i \<Rightarrow>
          (if i < length (tasks s) then
             (case tasks s ! i of
                Start pod \<Rightarrow>
                  (case healthCheck (rt i) c pod of
                     Inl p \<Rightarrow> Some (Inr (s\<lparr>tasks := (tasks s)[i := Panicking p]\<rparr>))
                   | Inr e \<Rightarrow> Some (Inr (s\<lparr>tasks := (tasks s)[i := Sending (sent e)]\<rparr>)))
              | Sending (m # ms) \<Rightarrow>
                  Some (Inr (s\<lparr>ch := ch s @ [(i, m)],
                                 tasks := (tasks s)[i := Sending ms]\<rparr>))
              | Sending [] \<Rightarrow>
                  (if wg s - 1 < 0
                   then Some (Inr (s\<lparr>wg := wg s - 1,
                                      tasks := (tasks s)[i := Dying NegativeWaitGroup]\<rparr>))
                   else Some (Inr (s\<lparr>wg := wg s - 1, tasks := (tasks s)[i := Finished]\<rparr>)))
              | Panicking p \<Rightarrow>
                  (if wg s - 1 < 0
                   then Some (Inr (s\<lparr>wg := wg s - 1,
                                      tasks := (tasks s)[i := Dying NegativeWaitGroup]\<rparr>))
                   else Some (Inr (s\<lparr>wg := wg s - 1, tasks := (tasks s)[i := Dying p]\<rparr>)))
              | Dying p \<Rightarrow> Some (Inl p)
              | Finished \<Rightarrow> None)
           else None)
      | Wait \<Rightarrow>
          (case pc s of
             ForRange [] \<Rightarrow> (if wg s = 0 then Some (Inr (s\<lparr>pc := Returned\<rparr>)) else None)
           | _ \<Rightarrow> None))"

text \<open>A schedule is the list of moves in the order they happen.\<close>

fun Collect_run ::
    "(nat \<Rightarrow> runtime) \<Rightarrow> Metrics \<Rightarrow> action list \<Rightarrow> cycle \<Rightarrow> (panic + cycle) option" where
  "Collect_run rt c [] s = Some (Inr s)"
| "Collect_run rt c (a # as) s =
     (case Collect_step rt c a s of
        None \<Rightarrow> None
      | Some (Inl p) \<Rightarrow> Some (Inl p)
      | Some (Inr s') \<Rightarrow> Collect_run rt c as s')"

text \<open>
  A whole cycle under a schedule: the \<^verbatim>\<open>List\<close> call, then the moves of the
  schedule. The result is the panic that ended the process, or the state reached.
\<close>

definition Collect_Metrics ::
    "(nat \<Rightarrow> runtime) \<Rightarrow> Metrics \<Rightarrow> string + Pod list \<Rightarrow> action list
       \<Rightarrow> (panic + cycle) option" where
  "Collect_Metrics rt c listing sched =
     (case Collect_init listing of
        Inl p \<Rightarrow> Some (Inl p)
      | Inr s \<Rightarrow> Collect_run rt c sched s)"

text \<open>The metrics that goroutine \<open>i\<close> has sent on the channel, in order.\<close>

definition sent_by :: "nat \<Rightarrow> (nat \<times> Metric) list \<Rightarrow> Metric list" where
  "sent_by i xs = map snd (filter (\<lambda>x. fst x = i) xs)"

text \<open>The first container's HTTPGet liveness probe, where the pod declares one.\<close>

definition first_httpGet :: "Pod \<Rightarrow> HTTPGetAction option" where
  "first_httpGet pod =
     (case Containers (Spec pod) of
        [] \<Rightarrow> None
      | c0 # _ \<Rightarrow>
          (case LivenessProbe c0 of None \<Rightarrow> None | Some lp \<Rightarrow> HTTPGet lp))"

text \<open>The three label values of a pod's metric: namespace, \<open>app\<close> label, pod name.\<close>

definition pod_labels :: "Pod \<Rightarrow> string list" where
  "pod_labels pod =
     [Namespace (ObjectMeta pod),
      (case Labels (ObjectMeta pod) ''app'' of None \<Rightarrow> '''' | Some v \<Rightarrow> v),
      Name (ObjectMeta pod)]"


section \<open>Concurrent calls of Collect on one collector\<close>

text \<open>
  Several calls of \<^verbatim>\<open>Collect\<close> on the same \<^verbatim>\<open>Metrics\<close> value share its mutex.
  A call is blocked in \<^verbatim>\<open>c.mutex.Lock()\<close> (line 121), or holds the mutex and is
  about to list the pods (line 124), or runs its cycle, or has returned, the deferred
  \<^verbatim>\<open>c.mutex.Unlock()\<close> (line 122) done. When the listing fails, the call panics
  (line 126): it is \<open>Unwinding\<close>, still holding the mutex, until its deferred
  \<^verbatim>\<open>Unlock()\<close> has run, and \<open>Aborted\<close> from then until the process exits; the other
  calls go on running in between. The goroutines of a call that has returned are still
  there: one that is \<open>Dying\<close> has its last move, the exit of the process, to make.

  The trace records, in the order they happen, every fetch from the cluster API and
  every metric written to a channel, with the number of the call that did it.
\<close>

datatype invocation =
  Blocked
| Holding
| Cycling cycle
| Unwinding panic
| Exited cycle
| Aborted panic

datatype event = Fetched | Wrote Metric

record collector =
  mutex :: bool
  invs :: "invocation list"
  trace :: "(nat \<times> event) list"

datatype move = Lock nat | ListPods nat | Cycle nat action | Unlock nat | Exit nat

definition collector_init :: "nat \<Rightarrow> collector" where
  "collector_init n = \<lparr>mutex = False, invs = replicate n Blocked, trace = []\<rparr>"

text \<open>
  \<open>Lock k\<close>: call \<open>k\<close> gets the mutex, which it can only when nobody holds it.
  \<open>ListPods k\<close>: call \<open>k\<close> lists the pods, and starts to panic when that fails.
  \<open>Cycle k a\<close>: move \<open>a\<close> of the cycle of call \<open>k\<close>, also after the call has
  returned. \<open>Unlock k\<close>: the deferred \<^verbatim>\<open>Unlock()\<close> of call \<open>k\<close>, which runs when
  the call has left \<^verbatim>\<open>wg.Wait()\<close> and returns, and when it panics. \<open>Exit k\<close>: the
  panic of call \<open>k\<close> ends the process. The result \<open>Inl p\<close> is the exit of the process
  by the panic \<open>p\<close>.
\<close>

definition Metrics_step ::
    "(nat \<Rightarrow> string + Pod list) \<Rightarrow> (nat \<Rightarrow> nat \<Rightarrow> runtime) \<Rightarrow> Metrics \<Rightarrow> move
       \<Rightarrow> collector \<Rightarrow> (panic + collector) option" where
  "Metrics_step api rt c mv g =
     (case mv of
        Lock k \<Rightarrow>
          (if k < length (invs g) \<and> invs g ! k = Blocked \<and> \<not> mutex g
           then Some (Inr (g\<lparr>mutex := True, invs := (invs g)[k := Holding]\<rparr>))
           else None)
      | ListPods k \<Rightarrow>
          (if k < length (invs g) \<and> invs g ! k = Holding
           then (case Collect_init (api k) of
                   Inl p \<Rightarrow>
                     Some (Inr (g\<lparr>invs := (invs g)[k := Unwinding p],
                                    trace := trace g @ [(k, Fetched)]\<rparr>))
                 | Inr cy \<Rightarrow>
                     Some (Inr (g\<lparr>invs := (invs g)[k := Cycling cy],
                                    trace := trace g @ [(k, Fetched)]\<rparr>)))
           else None)
      | Cycle k a \<Rightarrow>
          (if k < length (invs g)
           then (case invs g ! k of
                   Cycling cy \<Rightarrow>
                     (case Collect_step (rt k) c a cy of
                        None \<Rightarrow> None
                      | Some (Inl p) \<Rightarrow> Some (Inl p)
                      | Some (Inr cy') \<Rightarrow>
                          Some (Inr (g\<lparr>invs := (invs g)[k := Cycling cy'],
                                         trace := trace g
                                           @ map (\<lambda>x. (k, Wrote (snd x)))
                                               (drop (length (ch cy)) (ch cy'))\<rparr>)))
                 | Exited cy \<Rightarrow>
                     (case Collect_step (rt k) c a cy of
                        None \<Rightarrow> None
                      | Some (Inl p) \<Rightarrow> Some (Inl p)
                      | Some (Inr cy') \<Rightarrow>
                          Some (Inr (g\<lparr>invs := (invs g)[k := Exited cy'],
                                         trace := trace g
                                           @ map (\<lambda>x. (k, Wrote (snd x)))
                                               (drop (length (ch cy)) (ch cy'))\<rparr>)))
                 | _ \<Rightarrow> None)
           else None)
      | Unlock k \<Rightarrow>
          (if k < length (invs g)
           then (case invs g ! k of
                   Cycling cy \<Rightarrow>
                     (if pc cy = Returned
                      then Some (Inr (g\<lparr>mutex := False, invs := (invs g)[k := Exited cy]\<rparr>))
                      else None)
                 | Unwinding p \<Rightarrow>
                     Some (Inr (g\<lparr>mutex := False, invs := (invs g)[k := Aborted p]\<rparr>))
                 | _ \<Rightarrow> None)
           else None)
      | Exit k \<Rightarrow>
          (if k < length (invs g)
           then (case invs g ! k of
                   Aborted p \<Rightarrow> Some (Inl p)
                 | _ \<Rightarrow> None)
           else None))"

text \<open>
  A run of the collector under a schedule: the state in which it ended, and the panic
  by which the process exited there, if it did. No call moves after the exit.
\<close>

fun Metrics_run ::
    "(nat \<Rightarrow> string + Pod list) \<Rightarrow> (nat \<Rightarrow> nat \<Rightarrow> runtime) \<Rightarrow> Metrics \<Rightarrow> move list
       \<Rightarrow> collector \<Rightarrow> (collector \<times> panic option) option" where
  "Metrics_run api rt c [] g = Some (g, None)"
| "Metrics_run api rt c (mv # mvs) g =
     (case Metrics_step api rt c mv g of
        None \<Rightarrow> None
      | Some (Inl p) \<Rightarrow> Some (g, Some p)
      | Some (Inr g') \<Rightarrow> Metrics_run api rt c mvs g')"


section \<open>What the proofs speak about\<close>

text \<open>
  The URL that line 179 passes to \<^verbatim>\<open>c.httpClient.Get\<close> for a pod and its
  HTTPGet action, and the descriptor under which the collector reports.
\<close>

definition target_url :: "Pod \<Rightarrow> HTTPGetAction \<Rightarrow> string" where
  "target_url pod hg =
     (if URISchemeHTTP = Scheme hg then ''http://'' else ''https://'')
       @ PodIP (Status pod) @ '':'' @ Itoa (sint (IntVal (Port hg))) @ Path hg"

definition health_desc :: Desc where
  "health_desc =
     newGlobalMetric ''container_health_check_duration_millisecond''
       ''The time(millisecond) taken to invoke the health check interface''
       [''namespace'', ''container_name'', ''pod_name'']"

text \<open>
  A goroutine is live until its deferred \<^verbatim>\<open>waitGroup.Done()\<close> has run, and over
  from then on, whether it returned or panicked.
\<close>

definition task_live :: "task \<Rightarrow> bool" where
  "task_live t = (case t of Dying _ \<Rightarrow> False | Finished \<Rightarrow> False | _ \<Rightarrow> True)"

definition task_over :: "task \<Rightarrow> bool" where
  "task_over t = (case t of Dying _ \<Rightarrow> True | Finished \<Rightarrow> True | _ \<Rightarrow> False)"

text \<open>
  The invariant of a cycle over the pod list \<open>items\<close>: goroutines have been started
  for a prefix of the list, the wait group counts those that are live, and what
  goroutine \<open>i\<close> has sent so far together with what it still has to send is what
  \<^verbatim>\<open>healthCheck\<close> sends for pod \<open>i\<close>; a goroutine that panics is one whose
  \<^verbatim>\<open>healthCheck\<close> panics, and it has sent nothing.
\<close>

definition task_inv :: "runtime \<Rightarrow> Metrics \<Rightarrow> Pod \<Rightarrow> task \<Rightarrow> Metric list \<Rightarrow> bool" where
  "task_inv r c pod t out =
     (case t of
        Start p \<Rightarrow> p = pod \<and> out = []
      | Sending ms \<Rightarrow>
          (case healthCheck r c pod of Inl _ \<Rightarrow> False | Inr e \<Rightarrow> out @ ms = sent e)
      | Panicking p \<Rightarrow> healthCheck r c pod = Inl p \<and> out = []
      | Dying p \<Rightarrow> healthCheck r c pod = Inl p \<and> out = []
      | Finished \<Rightarrow>
          (case healthCheck r c pod of Inl _ \<Rightarrow> False | Inr e \<Rightarrow> out = sent e))"

definition cycle_inv :: "(nat \<Rightarrow> runtime) \<Rightarrow> Metrics \<Rightarrow> Pod list \<Rightarrow> cycle \<Rightarrow> bool" where
  "cycle_inv rt c items s =
     (length (tasks s) \<le> length items \<and>
      (case pc s of
         ForRange rest \<Rightarrow> rest = drop (length (tasks s)) items
       | Returned \<Rightarrow> length (tasks s) = length items \<and> wg s = 0) \<and>
      wg s = int (length (filter task_live (tasks s))) \<and>
      (\<forall>i < length (tasks s).
         task_inv (rt i) c (items ! i) (tasks s ! i) (sent_by i (ch s))) \<and>
      (\<forall>x \<in> set (ch s). fst x < length (tasks s)))"

text \<open>A measure that every move of a cycle decreases.\<close>

definition task_rank :: "task \<Rightarrow> nat" where
  "task_rank t =
     (case t of
        Start _ \<Rightarrow> 4
      | Sending ms \<Rightarrow> 2 + length ms
      | Panicking _ \<Rightarrow> 2
      | Dying _ \<Rightarrow> 1
      | Finished \<Rightarrow> 0)"

definition cycle_rank :: "cycle \<Rightarrow> nat" where
  "cycle_rank s =
     (case pc s of ForRange rest \<Rightarrow> 1 + 5 * length rest | Returned \<Rightarrow> 0)
       + sum_list (map task_rank (tasks s))"

text \<open>
  A call is inside the locked region from its \<^verbatim>\<open>Lock()\<close> to its deferred
  \<^verbatim>\<open>Unlock()\<close>, also while it panics.
\<close>

definition holds_mutex :: "invocation \<Rightarrow> bool" where
  "holds_mutex v =
     (case v of Holding \<Rightarrow> True | Cycling _ \<Rightarrow> True | Unwinding _ \<Rightarrow> True | _ \<Rightarrow> False)"

text \<open>
  The events of different calls do not interleave when each call's events are one block
  of the trace: removing adjacent repetitions from the list of call numbers leaves no
  number twice.
\<close>

definition not_interleaved :: "(nat \<times> event) list \<Rightarrow> bool" where
  "not_interleaved tr = distinct (remdups_adj (map fst tr))"

text \<open>The invariant of the collector under concurrent calls.\<close>

definition collector_inv ::
    "(nat \<Rightarrow> string + Pod list) \<Rightarrow> (nat \<Rightarrow> nat \<Rightarrow> runtime) \<Rightarrow> Metrics \<Rightarrow> nat
       \<Rightarrow> collector \<Rightarrow> bool" where
  "collector_inv api rt c n g =
     (length (invs g) = n \<and>
      (mutex g \<longleftrightarrow> (\<exists>k < n. holds_mutex (invs g ! k))) \<and>
      (\<forall>j < n. \<forall>k < n. holds_mutex (invs g ! j) \<and> holds_mutex (invs g ! k) \<longrightarrow> j = k) \<and>
      (\<forall>k < n. invs g ! k = Blocked \<or> invs g ! k = Holding \<longrightarrow> k \<notin> fst ` set (trace g)) \<and>
      (\<forall>k < n. holds_mutex (invs g ! k) \<and> k \<in> fst ` set (trace g)
                 \<longrightarrow> last (map fst (trace g)) = k) \<and>
      (\<forall>k \<in> fst ` set (trace g). k < n) \<and>
      not_interleaved (trace g) \<and>
      (\<forall>k < n. \<forall>cy. invs g ! k = Cycling cy \<or> invs g ! k = Exited cy
                 \<longrightarrow> (\<exists>items. api k = Inr items \<and> cycle_inv (rt k) c items cy)) \<and>
      (\<forall>k < n. \<forall>cy. invs g ! k = Exited cy \<longrightarrow> pc cy = Returned))"


section \<open>Example inputs\<close>

text \<open>
  The pods of the specification's scenarios: pod \<open>a\<close> with an HTTP probe on port
  8080, pod \<open>b\<close> with a container and no probe.
\<close>

definition mk_pod :: "string \<Rightarrow> string \<Rightarrow> string \<Rightarrow> Container list \<Rightarrow> Pod" where
  "mk_pod nm app ip cs =
     \<lparr>ObjectMeta = \<lparr>Name = nm, Namespace = ''default'', Labels = [''app'' \<mapsto> app]\<rparr>,
      Spec = \<lparr>Containers = cs\<rparr>,
      Status = \<lparr>PodIP = ip\<rparr>\<rparr>"

definition http_probe :: "URIScheme \<Rightarrow> IntOrString \<Rightarrow> Container" where
  "http_probe sch port =
     \<lparr>LivenessProbe =
        Some \<lparr>HTTPGet = Some \<lparr>Path = ''/healthz'', Port = port, Host = '''', Scheme = sch\<rparr>\<rparr>\<rparr>"

definition pod_a :: Pod where
  "pod_a = mk_pod ''a'' ''svcA'' ''10.0.0.1'' [http_probe ''HTTP'' (FromInt32 8080)]"

definition pod_b :: Pod where
  "pod_b = mk_pod ''b'' ''svcB'' ''10.0.0.2'' [\<lparr>LivenessProbe = None\<rparr>]"

text \<open>A runtime where every GET is answered with status 200 after 5 milliseconds.\<close>

definition rt_ok :: runtime where
  "rt_ok =
     \<lparr>Get = (\<lambda>url. \<lparr>resp = Some \<lparr>StatusCode = 200\<rparr>, err = None\<rparr>),
      Since = (\<lambda>url. 5000000),
      Now = 1715059230118\<rparr>"

text \<open>A runtime where every GET fails.\<close>

definition rt_fail :: runtime where
  "rt_fail =
     \<lparr>Get = (\<lambda>url. \<lparr>resp = None, err = Some ''connection refused''\<rparr>),
      Since = (\<lambda>url. 3000000000),
      Now = 1715059230118\<rparr>"

text \<open>
  Pods at the edges: a probe with an empty scheme field, a pod without containers, a pod
  without an IP, a probe that names its port, and a probe that declares HTTPS.
\<close>

definition pod_noscheme :: Pod where
  "pod_noscheme = mk_pod ''c'' ''svcC'' ''10.0.0.3'' [http_probe '''' (FromInt32 8080)]"

definition pod_nocontainer :: Pod where
  "pod_nocontainer = mk_pod ''d'' ''svcD'' ''10.0.0.4'' []"

definition pod_noip :: Pod where
  "pod_noip = mk_pod ''e'' ''svcE'' '''' [http_probe ''HTTP'' (FromInt32 8080)]"

definition pod_namedport :: Pod where
  "pod_namedport = mk_pod ''f'' ''svcF'' ''10.0.0.5'' [http_probe ''HTTP'' (FromString ''web'')]"

definition pod_https :: Pod where
  "pod_https = mk_pod ''g'' ''svcG'' ''10.0.0.6'' [http_probe URISchemeHTTPS (FromInt32 8443)]"

text \<open>A runtime where every GET is answered with the given status after 7 milliseconds.\<close>

definition rt_status :: "int \<Rightarrow> runtime" where
  "rt_status code =
     \<lparr>Get = (\<lambda>url. \<lparr>resp = Some \<lparr>StatusCode = code\<rparr>, err = None\<rparr>),
      Since = (\<lambda>url. 7000000),
      Now = 1715059230118\<rparr>"

text \<open>
  A runtime where every GET is answered by redirects until Go's client gives up: the
  client then returns the last response together with an error.
\<close>

definition rt_redirect :: runtime where
  "rt_redirect =
     \<lparr>Get = (\<lambda>url. \<lparr>resp = Some \<lparr>StatusCode = 302\<rparr>,
                     err = Some ''stopped after 10 redirects''\<rparr>),
      Since = (\<lambda>url. 9000000),
      Now = 1715059230118\<rparr>"

text \<open>The metrics of pod \<open>a\<close> and of the pod with the HTTPS probe, with a given value.\<close>

definition metric_a :: "int \<Rightarrow> Metric" where
  "metric_a v =
     \<lparr>desc = health_desc, valType = GaugeValue, val = v,
      labelValues = [''default'', ''svcA'', ''a''], timestamp = Some 1715059230118\<rparr>"





text \<open>
  Three calls on one collector, on both fatal paths. Call 0 has listed pod \<open>a\<close> and
  the pod without containers: the goroutine of pod \<open>a\<close> has written its sample and
  finished, the other goroutine has panicked and run its deferred \<^verbatim>\<open>Done()\<close>, and
  the call has returned. Call 1 then got the mutex, its listing failed, and it panics
  with the mutex still held. Call 2 is blocked.
\<close>

definition collector_mid :: collector where
  "collector_mid =
     \<lparr>mutex = True,
      invs = [Exited \<lparr>pc = Returned, tasks = [Finished, Dying IndexOutOfRange], wg = 0,
                      ch = [(0, metric_a 5000000)]\<rparr>,
              Unwinding (ListFailed ''api down''),
              Blocked],
      trace = [(0, Fetched), (0, Wrote (metric_a 5000000)), (1, Fetched)]\<rparr>"
section \<open>Properties of healthCheck\<close>

lemmas example_defs =
  pod_a_def pod_b_def pod_noscheme_def pod_nocontainer_def pod_noip_def pod_namedport_def
  pod_https_def mk_pod_def http_probe_def rt_ok_def rt_fail_def FromInt32_def FromString_def
  URISchemeHTTPS_def

lemmas healthCheck_defs =
  healthCheck_def MustNewConstMetric_def NewMetrics_def newGlobalMetric_def
  NewMetricWithTimestamp_def URISchemeHTTP_def health_desc_def Let_def Itoa_def digits.simps
  float64_def

lemma metrics_NewMetrics:
  "metrics NewMetrics ''container_health_check_duration_millisecond'' = Some health_desc"
  by (simp add: NewMetrics_def health_desc_def)

lemma variableLabels_health_desc: "length (variableLabels health_desc) = 3"
  by (simp add: health_desc_def newGlobalMetric_def)

lemma healthCheck_no_container:
  "Containers (Spec pod) = [] \<Longrightarrow> healthCheck r c pod = Inl IndexOutOfRange"
  by (simp add: healthCheck_def Let_def)

lemma healthCheck_no_httpGet:
  "Containers (Spec pod) \<noteq> [] \<Longrightarrow> first_httpGet pod = None \<Longrightarrow>
     healthCheck r c pod = Inr \<lparr>requests = [], sent = []\<rparr>"
  by (auto simp: healthCheck_def first_httpGet_def Let_def split: list.splits option.splits)

text \<open>
  What \<^verbatim>\<open>healthCheck\<close> does for a pod whose first container declares an HTTPGet
  liveness probe: one GET and one metric, whatever the GET returns.
\<close>

lemma healthCheck_httpGet:
  assumes "first_httpGet pod = Some hg"
  shows "healthCheck r NewMetrics pod =
     Inr \<lparr>requests = [target_url pod hg],
          sent = [\<lparr>desc = health_desc, valType = GaugeValue,
                  val = float64 (sint (if err (Get r (target_url pod hg)) \<noteq> None then - 1
                                       else Since r (target_url pod hg))),
                  labelValues = pod_labels pod,
                  timestamp = Some (Now r)\<rparr>]\<rparr>"
proof -
  from assms obtain c0 cs lp where
    cs: "Containers (Spec pod) = c0 # cs" and lp: "LivenessProbe c0 = Some lp"
    and hg: "HTTPGet lp = Some hg"
    by (auto simp: first_httpGet_def split: list.splits option.splits)
  show ?thesis
    by (simp add: healthCheck_def Let_def cs lp hg metrics_NewMetrics MustNewConstMetric_def
        variableLabels_health_desc NewMetricWithTimestamp_def target_url_def pod_labels_def)
qed

lemma healthCheck_sent_le1: "healthCheck r c pod = Inr e \<Longrightarrow> length (sent e) \<le> 1"
  by (auto simp: healthCheck_def Let_def split: list.splits option.splits sum.splits)

lemma float64_nonneg: "0 \<le> i \<Longrightarrow> 0 \<le> float64 i"
  by (simp add: float64_def Let_def)

lemma float64_minus1: "float64 (- 1) = - 1"
  by (simp add: float64_def)

section \<open>Properties of a collection cycle\<close>

lemma task_live_simps [simp]:
  "task_live (Start p) = True" "task_live (Sending ms) = True"
  "task_live (Panicking q) = True" "task_live (Dying q) = False"
  "task_live Finished = False"
  by (simp_all add: task_live_def)

lemma task_over_simps [simp]:
  "task_over (Start p) = False" "task_over (Sending ms) = False"
  "task_over (Panicking q) = False" "task_over (Dying q) = True"
  "task_over Finished = True"
  by (simp_all add: task_over_def)

lemma task_over_iff: "task_over t = (\<not> task_live t)"
  by (cases t) simp_all

lemma filter_update_count:
  "i < length xs \<Longrightarrow>
     length (filter P (xs[i := y])) + (if P (xs ! i) then 1 else 0) =
     length (filter P xs) + (if P y then 1 else 0)"
proof (induction xs arbitrary: i)
  case Nil
  then show ?case by simp
next
  case (Cons x xs)
  then show ?case by (cases i) auto
qed

lemma sum_list_update_rank:
  "i < length xs \<Longrightarrow>
     sum_list (map f (xs[i := y])) + f (xs ! i) = sum_list (map f xs) + (f y :: nat)"
proof (induction xs arbitrary: i)
  case Nil
  then show ?case by simp
next
  case (Cons x xs)
  then show ?case by (cases i) auto
qed

lemma sent_by_snoc:
  "sent_by j (xs @ [(i, m)]) = (if i = j then sent_by j xs @ [m] else sent_by j xs)"
  by (simp add: sent_by_def)

lemma sent_by_empty: "\<forall>x \<in> set xs. fst x < n \<Longrightarrow> sent_by n xs = []"
  by (auto simp: sent_by_def filter_empty_conv)

lemma cycle_inv_init:
  "cycle_inv rt c items \<lparr>pc = ForRange items, tasks = [], wg = 0, ch = []\<rparr>"
  by (simp add: cycle_inv_def)

lemma cycle_inv_Spawn:
  assumes inv: "cycle_inv rt c items s"
    and st: "Collect_step rt c Spawn s = Some (Inr s')"
  shows "cycle_inv rt c items s'"
proof -
  from st obtain item rest where pcs: "pc s = ForRange (item # rest)"
    and s': "s' = s\<lparr>pc := ForRange rest, wg := wg s + 1, tasks := tasks s @ [Start item]\<rparr>"
    by (auto simp: Collect_step_def split: main_pc.splits list.splits)
  let ?n = "length (tasks s)"
  from inv pcs have dr: "item # rest = drop ?n items"
    by (simp add: cycle_inv_def)
  then have lt: "?n < length items"
    by (metis drop_all list.distinct(1) not_le_imp_less)
  from dr lt have item: "item = items ! ?n" and rest: "rest = drop (Suc ?n) items"
    by (simp_all add: Cons_nth_drop_Suc [symmetric])
  from inv have tags: "\<forall>x \<in> set (ch s). fst x < ?n"
    by (simp add: cycle_inv_def)
  have new: "task_inv (rt ?n) c (items ! ?n) (Start item) (sent_by ?n (ch s))"
    using item tags by (simp add: task_inv_def sent_by_empty)
  show ?thesis
    using inv lt rest new tags
    by (auto simp: cycle_inv_def s' nth_append less_Suc_eq)
qed

text \<open>The wait group is positive as long as a goroutine is live.\<close>

lemma live_wg_pos:
  assumes inv: "cycle_inv rt c items s" and i: "i < length (tasks s)"
    and live: "task_live (tasks s ! i)"
  shows "1 \<le> wg s"
proof -
  from i live have "tasks s ! i \<in> set (filter task_live (tasks s))"
    by simp
  then have "filter task_live (tasks s) \<noteq> []"
    by (metis empty_iff list.set(1))
  then have "1 \<le> length (filter task_live (tasks s))"
    by (simp add: Suc_le_eq)
  with inv show ?thesis
    by (simp add: cycle_inv_def)
qed

text \<open>A move of goroutine \<open>i\<close> that sends nothing.\<close>

lemma cycle_inv_task_update:
  assumes inv: "cycle_inv rt c items s" and i: "i < length (tasks s)"
    and live: "task_live (tasks s ! i)"
    and new: "task_inv (rt i) c (items ! i) t' (sent_by i (ch s))"
    and w': "w' = wg s - (if task_live t' then 0 else 1)"
  shows "cycle_inv rt c items (s\<lparr>wg := w', tasks := (tasks s)[i := t']\<rparr>)"
proof -
  from live_wg_pos [OF inv i live] have pos: "1 \<le> wg s" .
  with inv have pcs: "pc s \<noteq> Returned"
    by (auto simp: cycle_inv_def)
  have cnt: "int (length (filter task_live ((tasks s)[i := t']))) = w'"
    using filter_update_count [OF i, of task_live t'] live inv pos w'
    by (auto simp: cycle_inv_def split: if_splits)
  show ?thesis
    using inv cnt new i pcs
    by (auto simp: cycle_inv_def nth_list_update split: main_pc.splits)
qed

lemma cycle_inv_Run:
  assumes inv: "cycle_inv rt c items s"
    and st: "Collect_step rt c (Run i) s = Some (Inr s')"
  shows "cycle_inv rt c items s'"
proof -
  from st have i: "i < length (tasks s)"
    by (auto simp: Collect_step_def split: if_splits)
  from inv i have ti: "task_inv (rt i) c (items ! i) (tasks s ! i) (sent_by i (ch s))"
    by (simp add: cycle_inv_def)
  show ?thesis
  proof (cases "tasks s ! i")
    case (Start pod)
    from ti Start have pod: "pod = items ! i" and out: "sent_by i (ch s) = []"
      by (simp_all add: task_inv_def)
    have live: "task_live (tasks s ! i)" using Start by simp
    show ?thesis
    proof (cases "healthCheck (rt i) c pod")
      case (Inl p)
      with st i Start have s': "s' = s\<lparr>wg := wg s, tasks := (tasks s)[i := Panicking p]\<rparr>"
        by (simp add: Collect_step_def)
      from Inl pod out
      have "task_inv (rt i) c (items ! i) (Panicking p) (sent_by i (ch s))"
        by (simp add: task_inv_def)
      from cycle_inv_task_update [OF inv i live this] show ?thesis
        by (simp add: s')
    next
      case (Inr e)
      with st i Start have s': "s' = s\<lparr>wg := wg s, tasks := (tasks s)[i := Sending (sent e)]\<rparr>"
        by (simp add: Collect_step_def)
      from Inr pod out
      have "task_inv (rt i) c (items ! i) (Sending (sent e)) (sent_by i (ch s))"
        by (simp add: task_inv_def)
      from cycle_inv_task_update [OF inv i live this] show ?thesis
        by (simp add: s')
    qed
  next
    case (Sending ms)
    have live: "task_live (tasks s ! i)" using Sending by simp
    show ?thesis
    proof (cases ms)
      case Nil
      from live_wg_pos [OF inv i live] st i Sending Nil
      have s': "s' = s\<lparr>wg := wg s - 1, tasks := (tasks s)[i := Finished]\<rparr>"
        by (auto simp: Collect_step_def split: if_splits)
      from ti Sending Nil have "task_inv (rt i) c (items ! i) Finished (sent_by i (ch s))"
        by (auto simp: task_inv_def split: sum.splits)
      from cycle_inv_task_update [OF inv i live this] show ?thesis
        by (simp add: s')
    next
      case (Cons m ms')
      with st i Sending have s': "s' = s\<lparr>ch := ch s @ [(i, m)],
                                        tasks := (tasks s)[i := Sending ms']\<rparr>"
        by (auto simp: Collect_step_def)
      have c': "length (filter task_live ((tasks s)[i := Sending ms'])) =
                length (filter task_live (tasks s))"
        using filter_update_count [OF i, of task_live "Sending ms'"] Sending
        by simp
      from ti Sending Cons
      have snd: "task_inv (rt i) c (items ! i) (Sending ms') (sent_by i (ch s) @ [m])"
        by (auto simp: task_inv_def split: sum.splits)
      show ?thesis
        using inv c' snd i
        by (auto simp: cycle_inv_def s' nth_list_update sent_by_snoc split: main_pc.splits)
    qed
  next
    case (Panicking p)
    have live: "task_live (tasks s ! i)" using Panicking by simp
    from live_wg_pos [OF inv i live] st i Panicking
    have s': "s' = s\<lparr>wg := wg s - 1, tasks := (tasks s)[i := Dying p]\<rparr>"
      by (auto simp: Collect_step_def split: if_splits)
    from ti Panicking have "task_inv (rt i) c (items ! i) (Dying p) (sent_by i (ch s))"
      by (simp add: task_inv_def)
    from cycle_inv_task_update [OF inv i live this] show ?thesis
      by (simp add: s')
  next
    case (Dying p)
    with st i show ?thesis
      by (simp add: Collect_step_def)
  next
    case Finished
    with st i show ?thesis
      by (simp add: Collect_step_def)
  qed
qed

lemma cycle_inv_Wait:
  assumes inv: "cycle_inv rt c items s"
    and st: "Collect_step rt c Wait s = Some (Inr s')"
  shows "cycle_inv rt c items s'"
proof -
  from st have pcs: "pc s = ForRange []" and w: "wg s = 0" and s': "s' = s\<lparr>pc := Returned\<rparr>"
    by (auto simp: Collect_step_def split: main_pc.splits list.splits if_splits)
  from inv pcs have "length (tasks s) = length items"
    by (simp add: cycle_inv_def)
  with inv w show ?thesis
    by (simp add: cycle_inv_def s')
qed

lemma cycle_inv_step:
  "cycle_inv rt c items s \<Longrightarrow> Collect_step rt c a s = Some (Inr s') \<Longrightarrow>
     cycle_inv rt c items s'"
  by (cases a) (auto intro: cycle_inv_Spawn cycle_inv_Run cycle_inv_Wait)

lemma cycle_inv_run:
  "cycle_inv rt c items s \<Longrightarrow> Collect_run rt c sched s = Some (Inr s') \<Longrightarrow>
     cycle_inv rt c items s'"
proof (induction sched arbitrary: s)
  case Nil
  then show ?case by simp
next
  case (Cons a sched)
  then show ?case
    by (auto split: option.splits sum.splits dest: cycle_inv_step)
qed

lemma cycle_inv_Collect:
  "Collect_Metrics rt c (Inr items) sched = Some (Inr s) \<Longrightarrow> cycle_inv rt c items s"
  by (auto simp: Collect_Metrics_def Collect_init_def intro: cycle_inv_run [OF cycle_inv_init])


lemma cycle_Returned_over:
  assumes inv: "cycle_inv rt c items s" and ret: "pc s = Returned"
  shows "length (tasks s) = length items \<and> list_all task_over (tasks s)"
proof -
  from inv ret have len: "length (tasks s) = length items" and w: "wg s = 0"
    by (simp_all add: cycle_inv_def)
  from inv w have "filter task_live (tasks s) = []"
    by (simp add: cycle_inv_def)
  then have "list_all task_over (tasks s)"
    by (simp add: filter_empty_conv list_all_iff task_over_iff)
  with len show ?thesis by simp
qed

text \<open>
  When \<^verbatim>\<open>Collect\<close> has returned, what goroutine \<open>i\<close> has sent is all that
  \<^verbatim>\<open>healthCheck\<close> sends for pod \<open>i\<close>, and nothing when it panics.
\<close>

lemma cycle_Returned_sent:
  assumes inv: "cycle_inv rt c items s" and ret: "pc s = Returned" and i: "i < length items"
  shows "sent_by i (ch s) =
           (case healthCheck (rt i) c (items ! i) of Inl _ \<Rightarrow> [] | Inr e \<Rightarrow> sent e)"
proof -
  from cycle_Returned_over [OF inv ret] i
  have len: "i < length (tasks s)" and over: "task_over (tasks s ! i)"
    by (simp_all add: list_all_length)
  from inv len have "task_inv (rt i) c (items ! i) (tasks s ! i) (sent_by i (ch s))"
    by (simp add: cycle_inv_def)
  with over show ?thesis
    by (cases "tasks s ! i") (auto simp: task_inv_def split: sum.splits)
qed

text \<open>Once \<^verbatim>\<open>Collect\<close> has returned, the only move left is the exit of the process.\<close>

lemma cycle_Returned_no_step:
  assumes inv: "cycle_inv rt c items s" and ret: "pc s = Returned"
  shows "Collect_step rt c a s \<noteq> Some (Inr s')"
proof (cases a)
  case Spawn
  with ret show ?thesis by (simp add: Collect_step_def)
next
  case (Run i)
  show ?thesis
  proof (cases "i < length (tasks s)")
    case True
    with cycle_Returned_over [OF inv ret] have "task_over (tasks s ! i)"
      by (simp add: list_all_length)
    with True Run show ?thesis
      by (cases "tasks s ! i") (simp_all add: Collect_step_def)
  next
    case False
    with Run show ?thesis by (simp add: Collect_step_def)
  qed
next
  case Wait
  with ret show ?thesis by (simp add: Collect_step_def)
qed

text \<open>The process exits only by the panic of some pod's \<^verbatim>\<open>healthCheck\<close>.\<close>

lemma cycle_step_Inl:
  assumes inv: "cycle_inv rt c items s" and st: "Collect_step rt c a s = Some (Inl p)"
  shows "\<exists>i < length items. healthCheck (rt i) c (items ! i) = Inl p"
proof (cases a)
  case Spawn
  with st show ?thesis
    by (auto simp: Collect_step_def split: main_pc.splits list.splits)
next
  case (Run i)
  with st have i: "i < length (tasks s)"
    by (auto simp: Collect_step_def split: if_splits)
  from inv i have il: "i < length items"
    and ti: "task_inv (rt i) c (items ! i) (tasks s ! i) (sent_by i (ch s))"
    by (simp_all add: cycle_inv_def)
  from st Run i have "tasks s ! i = Dying p"
    by (cases "tasks s ! i")
       (auto simp: Collect_step_def split: sum.splits list.splits if_splits)
  with ti have "healthCheck (rt i) c (items ! i) = Inl p"
    by (simp add: task_inv_def)
  with il show ?thesis by blast
next
  case Wait
  with st show ?thesis
    by (auto simp: Collect_step_def split: main_pc.splits list.splits if_splits)
qed

lemma cycle_run_Inl:
  "cycle_inv rt c items s \<Longrightarrow> Collect_run rt c sched s = Some (Inl p) \<Longrightarrow>
     \<exists>i < length items. healthCheck (rt i) c (items ! i) = Inl p"
proof (induction sched arbitrary: s)
  case Nil
  then show ?case by simp
next
  case (Cons a sched)
  show ?case
  proof (cases "Collect_step rt c a s")
    case None
    with Cons.prems show ?thesis by simp
  next
    case (Some r)
    show ?thesis
    proof (cases r)
      case (Inl q)
      with Some Cons.prems have "Collect_step rt c a s = Some (Inl p)" by simp
      from cycle_step_Inl [OF Cons.prems(1) this] show ?thesis .
    next
      case (Inr s1)
      with Some Cons.prems have "Collect_run rt c sched s1 = Some (Inl p)" by simp
      moreover from Some Inr have "Collect_step rt c a s = Some (Inr s1)" by simp
      from cycle_inv_step [OF Cons.prems(1) this] have "cycle_inv rt c items s1" .
      ultimately show ?thesis by (rule Cons.IH [rotated])
    qed
  qed
qed

lemma cycle_sent_prefix:
  assumes inv: "cycle_inv rt c items s" and m: "(i, m) \<in> set (ch s)"
  shows "i < length items \<and>
         (\<exists>e ms. healthCheck (rt i) c (items ! i) = Inr e \<and> sent_by i (ch s) @ ms = sent e)"
proof -
  from inv m have len: "i < length (tasks s)"
    by (auto simp: cycle_inv_def)
  with inv have i: "i < length items"
    by (simp add: cycle_inv_def)
  from m have ne: "sent_by i (ch s) \<noteq> []"
    by (force simp: sent_by_def filter_empty_conv)
  from inv len have "task_inv (rt i) c (items ! i) (tasks s ! i) (sent_by i (ch s))"
    by (simp add: cycle_inv_def)
  with ne have "\<exists>e ms. healthCheck (rt i) c (items ! i) = Inr e \<and> sent_by i (ch s) @ ms = sent e"
    by (cases "tasks s ! i") (auto simp: task_inv_def split: sum.splits)
  with i show ?thesis by simp
qed

lemma Collect_run_append:
  "Collect_run rt c (as @ bs) s =
     (case Collect_run rt c as s of
        Some (Inr s') \<Rightarrow> Collect_run rt c bs s'
      | r \<Rightarrow> r)"
  by (induction as arbitrary: s) (auto split: option.splits sum.splits)

lemma cycle_rank_step:
  "Collect_step rt c a s = Some (Inr s') \<Longrightarrow> cycle_rank s' < cycle_rank s"
proof (cases a)
  case Spawn
  assume "Collect_step rt c a s = Some (Inr s')"
  with Spawn show ?thesis
    by (auto simp: Collect_step_def cycle_rank_def task_rank_def
        split: main_pc.splits list.splits)
next
  case (Run i)
  assume st: "Collect_step rt c a s = Some (Inr s')"
  with Run have i: "i < length (tasks s)"
    by (auto simp: Collect_step_def split: if_splits)
  have "\<exists>t'. tasks s' = (tasks s)[i := t'] \<and> pc s' = pc s \<and> task_rank t' < task_rank (tasks s ! i)"
  proof (cases "tasks s ! i")
    case (Start pod)
    show ?thesis
    proof (cases "healthCheck (rt i) c pod")
      case (Inl p)
      with st Run i Start have "s' = s\<lparr>tasks := (tasks s)[i := Panicking p]\<rparr>"
        by (simp add: Collect_step_def)
      with Start show ?thesis by (auto simp: task_rank_def)
    next
      case (Inr e)
      with st Run i Start have s': "s' = s\<lparr>tasks := (tasks s)[i := Sending (sent e)]\<rparr>"
        by (simp add: Collect_step_def)
      from healthCheck_sent_le1 [OF Inr]
      have "task_rank (Sending (sent e)) < task_rank (Start pod)"
        by (simp add: task_rank_def)
      with s' Start show ?thesis by auto
    qed
  next
    case (Sending ms)
    with st Run i show ?thesis
      by (cases ms) (auto simp: Collect_step_def task_rank_def split: if_splits)
  next
    case (Panicking p)
    with st Run i show ?thesis
      by (auto simp: Collect_step_def task_rank_def split: if_splits)
  next
    case (Dying p)
    with st Run i show ?thesis by (simp add: Collect_step_def)
  next
    case Finished
    with st Run i show ?thesis by (simp add: Collect_step_def)
  qed
  then obtain t' where t': "tasks s' = (tasks s)[i := t']" "pc s' = pc s"
    "task_rank t' < task_rank (tasks s ! i)" by blast
  from sum_list_update_rank [OF i, of task_rank t'] t'
  show ?thesis
    by (simp add: cycle_rank_def)
next
  case Wait
  assume "Collect_step rt c a s = Some (Inr s')"
  with Wait show ?thesis
    by (auto simp: Collect_step_def cycle_rank_def
        split: main_pc.splits list.splits if_splits)
qed

text \<open>A cycle makes no more moves than its measure allows.\<close>

lemma cycle_run_length:
  "Collect_run rt c sched s = Some (Inr s') \<Longrightarrow> length sched + cycle_rank s' \<le> cycle_rank s"
proof (induction sched arbitrary: s)
  case Nil
  then show ?case by simp
next
  case (Cons a sched)
  then obtain s1 where st: "Collect_step rt c a s = Some (Inr s1)"
    and run: "Collect_run rt c sched s1 = Some (Inr s')"
    by (auto split: option.splits sum.splits)
  from Cons.IH [OF run] cycle_rank_step [OF st] show ?case by simp
qed

text \<open>Until \<^verbatim>\<open>Collect\<close> has returned, some goroutine can move on.\<close>

lemma cycle_progress:
  assumes inv: "cycle_inv rt c items s" and run: "pc s \<noteq> Returned"
  shows "\<exists>a s'. Collect_step rt c a s = Some (Inr s')"
proof (cases "pc s")
  case (ForRange rest)
  show ?thesis
  proof (cases rest)
    case (Cons item rest')
    with ForRange have "\<exists>s'. Collect_step rt c Spawn s = Some (Inr s')"
      by (simp add: Collect_step_def)
    then show ?thesis by blast
  next
    case Nil
    show ?thesis
    proof (cases "wg s = 0")
      case True
      with ForRange Nil have "\<exists>s'. Collect_step rt c Wait s = Some (Inr s')"
        by (simp add: Collect_step_def)
      then show ?thesis by blast
    next
      case False
      with inv have "filter task_live (tasks s) \<noteq> []"
        by (auto simp: cycle_inv_def)
      then obtain t where "t \<in> set (tasks s)" "task_live t"
        by (auto simp: filter_empty_conv)
      then obtain i where i: "i < length (tasks s)" and ti: "task_live (tasks s ! i)"
        by (auto simp: in_set_conv_nth)
      have "\<exists>s'. Collect_step rt c (Run i) s = Some (Inr s')"
      proof (cases "tasks s ! i")
        case (Start pod)
        with i show ?thesis
          by (cases "healthCheck (rt i) c pod") (simp_all add: Collect_step_def)
      next
        case (Sending ms)
        with i show ?thesis
          by (cases ms) (simp_all add: Collect_step_def)
      next
        case (Panicking p)
        with i show ?thesis by (simp add: Collect_step_def)
      next
        case (Dying p)
        with ti show ?thesis by simp
      next
        case Finished
        with ti show ?thesis by simp
      qed
      then show ?thesis by blast
    qed
  qed
next
  case Returned
  with run show ?thesis by simp
qed

lemma cycle_completes:
  "cycle_inv rt c items s \<Longrightarrow>
     \<exists>sched s'. Collect_run rt c sched s = Some (Inr s') \<and> pc s' = Returned"
proof (induction "cycle_rank s" arbitrary: s rule: less_induct)
  case less
  show ?case
  proof (cases "pc s = Returned")
    case True
    then have "Collect_run rt c [] s = Some (Inr s) \<and> pc s = Returned" by simp
    then show ?thesis by blast
  next
    case False
    from cycle_progress [OF less.prems False]
    obtain a s1 where st: "Collect_step rt c a s = Some (Inr s1)" by blast
    from cycle_rank_step [OF st] cycle_inv_step [OF less.prems st] less.hyps
    obtain sched s' where "Collect_run rt c sched s1 = Some (Inr s')" "pc s' = Returned"
      by blast
    with st have "Collect_run rt c (a # sched) s = Some (Inr s') \<and> pc s' = Returned"
      by simp
    then show ?thesis by blast
  qed
qed

lemma healthCheck_NewMetrics_Inr:
  "Containers (Spec pod) \<noteq> [] \<Longrightarrow> \<exists>e. healthCheck r NewMetrics pod = Inr e"
  by (cases "first_httpGet pod") (auto simp: healthCheck_no_httpGet healthCheck_httpGet)

text \<open>A cycle can always run on until \<^verbatim>\<open>Collect\<close> returns.\<close>

lemma Collect_extends:
  assumes run: "Collect_Metrics rt c (Inr items) sched = Some (Inr s)"
  shows "\<exists>more s'. Collect_Metrics rt c (Inr items) (sched @ more) = Some (Inr s') \<and>
                    pc s' = Returned"
proof -
  from cycle_completes [OF cycle_inv_Collect [OF run]]
  obtain more s' where "Collect_run rt c more s = Some (Inr s')" "pc s' = Returned"
    by blast
  with run have "Collect_Metrics rt c (Inr items) (sched @ more) = Some (Inr s') \<and>
                 pc s' = Returned"
    by (simp add: Collect_Metrics_def Collect_init_def Collect_run_append)
  then show ?thesis by blast
qed

text \<open>When every listed pod has a first container, no cycle ends in a panic.\<close>

lemma Collect_no_panic:
  assumes cs: "\<forall>p \<in> set items. Containers (Spec p) \<noteq> []"
  shows "Collect_Metrics rt NewMetrics (Inr items) sched \<noteq> Some (Inl p)"
proof
  assume "Collect_Metrics rt NewMetrics (Inr items) sched = Some (Inl p)"
  then have "Collect_run rt NewMetrics sched \<lparr>pc = ForRange items, tasks = [], wg = 0, ch = []\<rparr>
               = Some (Inl p)"
    by (simp add: Collect_Metrics_def Collect_init_def)
  from cycle_run_Inl [OF cycle_inv_init this]
  obtain i where i: "i < length items"
    and "healthCheck (rt i) NewMetrics (items ! i) = Inl p"
    by blast
  moreover from cs i have "Containers (Spec (items ! i)) \<noteq> []" by simp
  from healthCheck_NewMetrics_Inr [OF this, of "rt i"]
  obtain e where "healthCheck (rt i) NewMetrics (items ! i) = Inr e" by blast
  ultimately show False by simp
qed

lemma Collect_length:
  assumes "Collect_Metrics rt c (Inr items) sched = Some (Inr s)"
  shows "length sched \<le> 1 + 5 * length items"
proof -
  from assms have "Collect_run rt c sched \<lparr>pc = ForRange items, tasks = [], wg = 0, ch = []\<rparr>
                     = Some (Inr s)"
    by (simp add: Collect_Metrics_def Collect_init_def)
  from cycle_run_length [OF this] show ?thesis
    by (simp add: cycle_rank_def)
qed

lemmas cycle_defs = Collect_Metrics_def Collect_init_def Collect_step_def

lemma Collect_Returned_sent:
  assumes run: "Collect_Metrics rt c (Inr items) sched = Some (Inr s)"
    and ret: "pc s = Returned" and i: "i < length items"
  shows "sent_by i (ch s) =
           (case healthCheck (rt i) c (items ! i) of Inl _ \<Rightarrow> [] | Inr e \<Rightarrow> sent e)"
  using cycle_Returned_sent [OF cycle_inv_Collect [OF run] ret i] .

lemma sent_by_nonempty: "sent_by i xs \<noteq> [] \<Longrightarrow> \<exists>m. (i, m) \<in> set xs"
  by (auto simp: sent_by_def filter_empty_conv)

lemma Collect_sample_origin:
  assumes run: "Collect_Metrics rt NewMetrics (Inr items) sched = Some (Inr s)"
    and m: "(i, m) \<in> set (ch s)"
  shows "i < length items \<and>
         (\<exists>hg. first_httpGet (items ! i) = Some hg \<and>
               healthCheck (rt i) NewMetrics (items ! i) =
                 Inr \<lparr>requests = [target_url (items ! i) hg], sent = [m]\<rparr> \<and>
               sent_by i (ch s) = [m])"
proof -
  from cycle_sent_prefix [OF cycle_inv_Collect [OF run] m]
  obtain e ms where i: "i < length items"
    and e: "healthCheck (rt i) NewMetrics (items ! i) = Inr e"
    and pre: "sent_by i (ch s) @ ms = sent e"
    by blast
  from m have mem: "m \<in> set (sent_by i (ch s))"
    by (force simp: sent_by_def)
  show ?thesis
  proof (cases "first_httpGet (items ! i)")
    case None
    show ?thesis
    proof (cases "Containers (Spec (items ! i)) = []")
      case True
      with e show ?thesis by (simp add: healthCheck_no_container)
    next
      case False
      from healthCheck_no_httpGet [OF False None, of "rt i" NewMetrics] e pre mem
      show ?thesis by auto
    qed
  next
    case (Some hg)
    from healthCheck_httpGet [OF Some, of "rt i"] e
    obtain m' where sent: "sent e = [m']"
      and hc: "healthCheck (rt i) NewMetrics (items ! i) =
                 Inr \<lparr>requests = [target_url (items ! i) hg], sent = [m']\<rparr>"
      by auto
    from pre sent mem have "sent_by i (ch s) = [m']" and "m = m'"
      by (auto simp: append_eq_Cons_conv)
    with i Some hc show ?thesis by simp
  qed
qed



lemma Collect_progress:
  assumes run: "Collect_Metrics rt c (Inr items) sched = Some (Inr s)"
    and live: "pc s \<noteq> Returned"
  shows "\<exists>a s'. Collect_Metrics rt c (Inr items) (sched @ [a]) = Some (Inr s')"
proof -
  from cycle_progress [OF cycle_inv_Collect [OF run] live]
  obtain a s' where "Collect_step rt c a s = Some (Inr s')" by blast
  with run have "Collect_Metrics rt c (Inr items) (sched @ [a]) = Some (Inr s')"
    by (simp add: Collect_Metrics_def Collect_init_def Collect_run_append)
  then show ?thesis by blast
qed
section \<open>Properties of concurrent calls\<close>

lemma not_interleaved_snoc:
  assumes "not_interleaved tr" and "k \<in> fst ` set tr \<longrightarrow> last (map fst tr) = k"
  shows "not_interleaved (tr @ [(k, e)])"
proof (cases "tr = []")
  case True
  then show ?thesis by (simp add: not_interleaved_def)
next
  case False
  then have ne: "map fst tr \<noteq> []" by simp
  show ?thesis
  proof (cases "last (map fst tr) = k")
    case True
    with assms(1) ne show ?thesis
      by (simp add: not_interleaved_def remdups_adj_append'')
  next
    case False
    with assms(2) have "k \<notin> set (map fst tr)" by auto
    with assms(1) ne False show ?thesis
      by (simp add: not_interleaved_def remdups_adj_append'')
  qed
qed

lemma not_interleaved_append_own:
  assumes "not_interleaved tr" and "k \<in> fst ` set tr \<longrightarrow> last (map fst tr) = k"
  shows "not_interleaved (tr @ map (\<lambda>x. (k, f x)) ys)"
  using assms
proof (induction ys arbitrary: tr)
  case Nil
  then show ?case by simp
next
  case (Cons y ys)
  have "not_interleaved ((tr @ [(k, f y)]) @ map (\<lambda>x. (k, f x)) ys)"
  proof (rule Cons.IH)
    show "not_interleaved (tr @ [(k, f y)])"
      using Cons.prems by (rule not_interleaved_snoc)
    show "k \<in> fst ` set (tr @ [(k, f y)]) \<longrightarrow> last (map fst (tr @ [(k, f y)])) = k"
      by simp
  qed
  then show ?case by simp
qed

lemma collector_inv_init: "collector_inv api rt c n (collector_init n)"
  by (simp add: collector_inv_def collector_init_def holds_mutex_def not_interleaved_def)

lemma holds_mutex_simps [simp]:
  "holds_mutex Blocked = False" "holds_mutex Holding = True"
  "holds_mutex (Cycling cy) = True" "holds_mutex (Unwinding p) = True"
  "holds_mutex (Exited cy) = False" "holds_mutex (Aborted p) = False"
  by (simp_all add: holds_mutex_def)

lemma inv_len: "collector_inv api rt c n g \<Longrightarrow> length (invs g) = n"
  by (simp add: collector_inv_def)

lemma inv_mutex:
  "collector_inv api rt c n g \<Longrightarrow> mutex g = (\<exists>k < n. holds_mutex (invs g ! k))"
  by (simp add: collector_inv_def)

lemma inv_unique:
  assumes "collector_inv api rt c n g" and "j < n" and "k < n"
    and "holds_mutex (invs g ! j)" and "holds_mutex (invs g ! k)"
  shows "j = k"
proof -
  from assms(1)
  have "\<forall>j < n. \<forall>k < n. holds_mutex (invs g ! j) \<and> holds_mutex (invs g ! k) \<longrightarrow> j = k"
    unfolding collector_inv_def by (elim conjE)
  with assms(2-) show ?thesis by blast
qed

lemma inv_idle:
  assumes "collector_inv api rt c n g" and "k < n"
    and "invs g ! k = Blocked \<or> invs g ! k = Holding"
  shows "k \<notin> fst ` set (trace g)"
proof -
  from assms(1)
  have "\<forall>k < n. invs g ! k = Blocked \<or> invs g ! k = Holding \<longrightarrow> k \<notin> fst ` set (trace g)"
    unfolding collector_inv_def by (elim conjE)
  with assms(2-) show ?thesis by blast
qed

lemma inv_last:
  assumes "collector_inv api rt c n g" and "k < n" and "holds_mutex (invs g ! k)"
    and "k \<in> fst ` set (trace g)"
  shows "last (map fst (trace g)) = k"
proof -
  from assms(1)
  have "\<forall>k < n. holds_mutex (invs g ! k) \<and> k \<in> fst ` set (trace g)
                 \<longrightarrow> last (map fst (trace g)) = k"
    unfolding collector_inv_def by (elim conjE)
  with assms(2-) show ?thesis by blast
qed

lemma inv_ids:
  assumes "collector_inv api rt c n g" and "k \<in> fst ` set (trace g)"
  shows "k < n"
proof -
  from assms(1) have "\<forall>k \<in> fst ` set (trace g). k < n"
    unfolding collector_inv_def by (elim conjE)
  with assms(2) show ?thesis by blast
qed

lemma inv_ni: "collector_inv api rt c n g \<Longrightarrow> not_interleaved (trace g)"
  by (simp add: collector_inv_def)

lemma inv_cycle:
  assumes "collector_inv api rt c n g" and "k < n"
    and "invs g ! k = Cycling cy \<or> invs g ! k = Exited cy"
  shows "\<exists>items. api k = Inr items \<and> cycle_inv (rt k) c items cy"
proof -
  from assms(1)
  have "\<forall>k < n. \<forall>cy. invs g ! k = Cycling cy \<or> invs g ! k = Exited cy
                 \<longrightarrow> (\<exists>items. api k = Inr items \<and> cycle_inv (rt k) c items cy)"
    unfolding collector_inv_def by (elim conjE)
  with assms(2-) show ?thesis by blast
qed

lemma inv_exited:
  assumes "collector_inv api rt c n g" and "k < n" and "invs g ! k = Exited cy"
  shows "pc cy = Returned"
proof -
  from assms(1) have "\<forall>k < n. \<forall>cy. invs g ! k = Exited cy \<longrightarrow> pc cy = Returned"
    unfolding collector_inv_def by (elim conjE)
  with assms(2-) show ?thesis by blast
qed

text \<open>A move of call \<open>k\<close> that keeps who holds the mutex and adds only its own events.\<close>

lemma collector_inv_update:
  assumes inv: "collector_inv api rt c n g"
    and k: "k < n"
    and hk: "holds_mutex (invs g ! k)"
    and v': "holds_mutex v'"
    and idle: "v' = Holding \<longrightarrow> trace g @ map (\<lambda>x. (k, f x)) ys = trace g \<and> invs g ! k = Holding"
    and cyc: "\<And>cy. v' = Cycling cy \<Longrightarrow> \<exists>items. api k = Inr items \<and> cycle_inv (rt k) c items cy"
  shows "collector_inv api rt c n
           (g\<lparr>invs := (invs g)[k := v'], trace := trace g @ map (\<lambda>x. (k, f x)) ys\<rparr>)"
    (is "collector_inv api rt c n ?g'")
proof -
  note len = inv_len [OF inv]
  have only: "j = k" if "j < n" "holds_mutex (invs g ! j)" for j
    using inv_unique [OF inv that(1) k that(2) hk] .
  have nth: "invs ?g' ! j = (if j = k then v' else invs g ! j)" if "j < n" for j
    using that k len by (simp add: nth_list_update)
  have ids: "fst ` set (trace ?g') \<subseteq> insert k (fst ` set (trace g))"
    by auto
  have lastk: "k \<in> fst ` set (trace g) \<longrightarrow> last (map fst (trace g)) = k"
    using inv_last [OF inv k hk] by simp
  have ni': "not_interleaved (trace ?g')"
    using not_interleaved_append_own [OF inv_ni [OF inv] lastk] by simp
  have lastk': "last (map fst (trace ?g')) = k" if "k \<in> fst ` set (trace ?g')"
  proof (cases "ys = []")
    case True
    with that lastk show ?thesis by simp
  next
    case False
    then show ?thesis by (simp add: last_map)
  qed
  show ?thesis
    unfolding collector_inv_def
  proof (intro conjI allI impI ballI)
    show "length (invs ?g') = n" using len by simp
    show "mutex ?g' = (\<exists>j<n. holds_mutex (invs ?g' ! j))"
    proof -
      have "mutex g" using inv_mutex [OF inv] k hk by auto
      moreover have "\<exists>j<n. holds_mutex (invs ?g' ! j)"
        using k v' nth [OF k] by auto
      ultimately show ?thesis by simp
    qed
  next
    fix j i assume j: "j < n" and i: "i < n"
      and h: "holds_mutex (invs ?g' ! j) \<and> holds_mutex (invs ?g' ! i)"
    from h j nth [OF j] have "j = k" by (cases "j = k") (auto intro: only)
    moreover from h i nth [OF i] have "i = k" by (cases "i = k") (auto intro: only)
    ultimately show "j = i" by simp
  next
    fix j assume j: "j < n" and b: "invs ?g' ! j = Blocked \<or> invs ?g' ! j = Holding"
    show "j \<notin> fst ` set (trace ?g')"
    proof (cases "j = k")
      case True
      with b nth [OF j] v' have "v' = Holding" by auto
      with idle True inv_idle [OF inv k] show ?thesis by simp
    next
      case False
      with b nth [OF j] have "invs g ! j = Blocked \<or> invs g ! j = Holding" by simp
      from inv_idle [OF inv j this] False ids show ?thesis by auto
    qed
  next
    fix j assume j: "j < n"
      and h: "holds_mutex (invs ?g' ! j) \<and> j \<in> fst ` set (trace ?g')"
    from h j nth [OF j] have "j = k" by (cases "j = k") (auto intro: only)
    with h lastk' show "last (map fst (trace ?g')) = j" by simp
  next
    fix j assume "j \<in> fst ` set (trace ?g')"
    with ids have "j = k \<or> j \<in> fst ` set (trace g)" by auto
    with k inv_ids [OF inv] show "j < n" by auto
  next
    show "not_interleaved (trace ?g')" by (rule ni')
  next
    fix j cy assume j: "j < n" and h: "invs ?g' ! j = Cycling cy \<or> invs ?g' ! j = Exited cy"
    show "\<exists>items. api j = Inr items \<and> cycle_inv (rt j) c items cy"
    proof (cases "j = k")
      case True
      with h nth [OF j] v' have "v' = Cycling cy" by auto
      with cyc True show ?thesis by simp
    next
      case False
      with h nth [OF j] inv_cycle [OF inv j] show ?thesis by simp
    qed
  next
    fix j cy assume j: "j < n" and h: "invs ?g' ! j = Exited cy"
    with nth [OF j] v' have "invs g ! j = Exited cy" by (cases "j = k") auto
    from inv_exited [OF inv j this] show "pc cy = Returned" .
  qed
qed

lemma collector_inv_Lock:
  assumes inv: "collector_inv api rt c n g"
    and st: "Metrics_step api rt c (Lock k) g = Some (Inr g')"
  shows "collector_inv api rt c n g'"
proof -
  from st have k: "k < length (invs g)" and b: "invs g ! k = Blocked" and m: "\<not> mutex g"
    and g': "g' = g\<lparr>mutex := True, invs := (invs g)[k := Holding]\<rparr>"
    by (auto simp: Metrics_step_def split: if_splits)
  note len = inv_len [OF inv]
  from k len have kn: "k < n" by simp
  have free: "\<not> holds_mutex (invs g ! j)" if "j < n" for j
    using inv_mutex [OF inv] m that by auto
  have nth: "invs g' ! j = (if j = k then Holding else invs g ! j)" if "j < n" for j
    using that kn len by (simp add: g' nth_list_update)
  have only: "j = k" if "j < n" "holds_mutex (invs g' ! j)" for j
    using nth [OF that(1)] free [OF that(1)] that(2) by (cases "j = k") auto
  have tr: "trace g' = trace g" by (simp add: g')
  have notin: "k \<notin> fst ` set (trace g)"
    using inv_idle [OF inv kn] b by simp
  show ?thesis
    unfolding collector_inv_def
  proof (intro conjI allI impI ballI)
    show "length (invs g') = n" using len by (simp add: g')
    show "mutex g' = (\<exists>j<n. holds_mutex (invs g' ! j))"
      using kn nth [OF kn] by (auto simp: g')
  next
    fix j i assume "j < n" "i < n" "holds_mutex (invs g' ! j) \<and> holds_mutex (invs g' ! i)"
    with only show "j = i" by blast
  next
    fix j assume j: "j < n" and h: "invs g' ! j = Blocked \<or> invs g' ! j = Holding"
    show "j \<notin> fst ` set (trace g')"
    proof (cases "j = k")
      case True
      with notin show ?thesis by (simp add: tr)
    next
      case False
      with h nth [OF j] inv_idle [OF inv j] show ?thesis by (simp add: tr)
    qed
  next
    fix j assume j: "j < n" and h: "holds_mutex (invs g' ! j) \<and> j \<in> fst ` set (trace g')"
    with only [OF j] notin show "last (map fst (trace g')) = j" by (auto simp: tr)
  next
    fix j assume "j \<in> fst ` set (trace g')"
    with inv_ids [OF inv] show "j < n" by (simp add: tr)
  next
    show "not_interleaved (trace g')" using inv_ni [OF inv] by (simp add: tr)
  next
    fix j cy assume j: "j < n" and h: "invs g' ! j = Cycling cy \<or> invs g' ! j = Exited cy"
    with nth [OF j] have "invs g ! j = Cycling cy \<or> invs g ! j = Exited cy"
      by (cases "j = k") auto
    from inv_cycle [OF inv j this]
    show "\<exists>items. api j = Inr items \<and> cycle_inv (rt j) c items cy" .
  next
    fix j cy assume j: "j < n" and h: "invs g' ! j = Exited cy"
    with nth [OF j] have "invs g ! j = Exited cy" by (cases "j = k") auto
    from inv_exited [OF inv j this] show "pc cy = Returned" .
  qed
qed

lemma collector_inv_ListPods:
  assumes inv: "collector_inv api rt c n g"
    and st: "Metrics_step api rt c (ListPods k) g = Some (Inr g')"
  shows "collector_inv api rt c n g'"
proof -
  from st have k: "k < length (invs g)" and h: "invs g ! k = Holding"
    by (auto simp: Metrics_step_def split: if_splits)
  from k inv_len [OF inv] have kn: "k < n" by simp
  have hk: "holds_mutex (invs g ! k)" using h by simp
  show ?thesis
  proof (cases "api k")
    case (Inl e)
    with st k h
    have g': "g' = g\<lparr>invs := (invs g)[k := Unwinding (ListFailed e)],
                     trace := trace g @ [(k, Fetched)]\<rparr>"
      by (simp add: Metrics_step_def Collect_init_def)
    have "collector_inv api rt c n
            (g\<lparr>invs := (invs g)[k := Unwinding (ListFailed e)],
               trace := trace g @ map (\<lambda>x. (k, (\<lambda>_. Fetched) x)) [()]\<rparr>)"
      using inv kn hk
    proof (rule collector_inv_update)
      show "holds_mutex (Unwinding (ListFailed e))" by simp
      show "Unwinding (ListFailed e) = Holding \<longrightarrow>
            trace g @ map (\<lambda>x. (k, (\<lambda>_. Fetched) x)) [()] = trace g \<and> invs g ! k = Holding"
        by simp
      show "\<exists>its. api k = Inr its \<and> cycle_inv (rt k) c its cy"
        if "Unwinding (ListFailed e) = Cycling cy" for cy
        using that by simp
    qed
    then show ?thesis by (simp add: g')
  next
    case (Inr items)
    with st k h
    have g': "g' = g\<lparr>invs := (invs g)[k := Cycling \<lparr>pc = ForRange items, tasks = [], wg = 0, ch = []\<rparr>],
                     trace := trace g @ [(k, Fetched)]\<rparr>"
      by (simp add: Metrics_step_def Collect_init_def)
    have "collector_inv api rt c n
            (g\<lparr>invs := (invs g)[k := Cycling \<lparr>pc = ForRange items, tasks = [], wg = 0, ch = []\<rparr>],
               trace := trace g @ map (\<lambda>x. (k, (\<lambda>_. Fetched) x)) [()]\<rparr>)"
      using inv kn hk
    proof (rule collector_inv_update)
      show "holds_mutex (Cycling \<lparr>pc = ForRange items, tasks = [], wg = 0, ch = []\<rparr>)" by simp
      show "Cycling \<lparr>pc = ForRange items, tasks = [], wg = 0, ch = []\<rparr> = Holding \<longrightarrow>
            trace g @ map (\<lambda>x. (k, (\<lambda>_. Fetched) x)) [()] = trace g \<and> invs g ! k = Holding"
        by simp
      show "\<exists>its. api k = Inr its \<and> cycle_inv (rt k) c its cy"
        if "Cycling \<lparr>pc = ForRange items, tasks = [], wg = 0, ch = []\<rparr> = Cycling cy" for cy
        using that Inr cycle_inv_init [of "rt k" c items] by auto
    qed
    then show ?thesis by (simp add: g')
  qed
qed

text \<open>The goroutines of a call that has returned write nothing more.\<close>

lemma Exited_no_step:
  assumes inv: "collector_inv api rt c n g" and k: "k < n" and e: "invs g ! k = Exited cy"
  shows "Collect_step (rt k) c a cy \<noteq> Some (Inr cy')"
proof -
  from inv_cycle [OF inv k] e obtain items where ci: "cycle_inv (rt k) c items cy"
    by auto
  from inv_exited [OF inv k e] have "pc cy = Returned" .
  from cycle_Returned_no_step [OF ci this] show ?thesis .
qed

lemma collector_inv_Cycle:
  assumes inv: "collector_inv api rt c n g"
    and st: "Metrics_step api rt c (Cycle k a) g = Some (Inr g')"
  shows "collector_inv api rt c n g'"
proof -
  from st have k: "k < length (invs g)"
    by (auto simp: Metrics_step_def split: if_splits)
  from k inv_len [OF inv] have kn: "k < n" by simp
  show ?thesis
  proof (cases "invs g ! k")
    case (Cycling cy)
    with st k obtain cy' where step: "Collect_step (rt k) c a cy = Some (Inr cy')"
      and g': "g' = g\<lparr>invs := (invs g)[k := Cycling cy'],
                       trace := trace g @ map (\<lambda>x. (k, Wrote (snd x)))
                                            (drop (length (ch cy)) (ch cy'))\<rparr>"
      by (auto simp: Metrics_step_def split: option.splits sum.splits)
    from inv_cycle [OF inv kn] Cycling obtain items where api: "api k = Inr items"
      and ci: "cycle_inv (rt k) c items cy"
      by auto
    from cycle_inv_step [OF ci step] have ci': "cycle_inv (rt k) c items cy'" .
    have "collector_inv api rt c n
            (g\<lparr>invs := (invs g)[k := Cycling cy'],
               trace := trace g @ map (\<lambda>x. (k, Wrote (snd x)))
                                    (drop (length (ch cy)) (ch cy'))\<rparr>)"
      using inv kn
    proof (rule collector_inv_update)
      show "holds_mutex (invs g ! k)" using Cycling by simp
      show "holds_mutex (Cycling cy')" by simp
      show "Cycling cy' = Holding \<longrightarrow>
            trace g @ map (\<lambda>x. (k, Wrote (snd x))) (drop (length (ch cy)) (ch cy')) = trace g \<and>
            invs g ! k = Holding"
        by simp
      show "\<exists>its. api k = Inr its \<and> cycle_inv (rt k) c its cy''"
        if "Cycling cy' = Cycling cy''" for cy''
        using that api ci' by auto
    qed
    then show ?thesis by (simp add: g')
  next
    case (Exited cy)
    with st k obtain cy' where "Collect_step (rt k) c a cy = Some (Inr cy')"
      by (auto simp: Metrics_step_def split: option.splits sum.splits)
    with Exited_no_step [OF inv kn Exited] show ?thesis by simp
  next
    case Blocked
    with st k show ?thesis by (simp add: Metrics_step_def)
  next
    case Holding
    with st k show ?thesis by (simp add: Metrics_step_def)
  next
    case (Unwinding p)
    with st k show ?thesis by (simp add: Metrics_step_def)
  next
    case (Aborted p)
    with st k show ?thesis by (simp add: Metrics_step_def)
  qed
qed

text \<open>The deferred \<^verbatim>\<open>Unlock()\<close> of the call that holds the mutex.\<close>

lemma collector_inv_release:
  assumes inv: "collector_inv api rt c n g"
    and kn: "k < n"
    and hk: "holds_mutex (invs g ! k)"
    and v': "v' = Aborted p \<or>
             (v' = Exited cy \<and> pc cy = Returned \<and>
              (\<exists>items. api k = Inr items \<and> cycle_inv (rt k) c items cy))"
  shows "collector_inv api rt c n (g\<lparr>mutex := False, invs := (invs g)[k := v']\<rparr>)"
    (is "collector_inv api rt c n ?g'")
proof -
  note len = inv_len [OF inv]
  have only: "j = k" if "j < n" "holds_mutex (invs g ! j)" for j
    using inv_unique [OF inv that(1) kn that(2) hk] .
  have nth: "invs ?g' ! j = (if j = k then v' else invs g ! j)" if "j < n" for j
    using that kn len by (simp add: nth_list_update)
  have nh: "\<not> holds_mutex v'" using v' by auto
  have free: "\<not> holds_mutex (invs ?g' ! j)" if "j < n" for j
    using nth [OF that] only [OF that] nh by (cases "j = k") auto
  have tr: "trace ?g' = trace g" by simp
  show ?thesis
    unfolding collector_inv_def
  proof (intro conjI allI impI ballI)
    show "length (invs ?g') = n" using len by simp
    show "mutex ?g' = (\<exists>j<n. holds_mutex (invs ?g' ! j))"
      using free by auto
  next
    fix j i assume "j < n" "i < n" "holds_mutex (invs ?g' ! j) \<and> holds_mutex (invs ?g' ! i)"
    with free show "j = i" by blast
  next
    fix j assume j: "j < n" and b: "invs ?g' ! j = Blocked \<or> invs ?g' ! j = Holding"
    with nth [OF j] v' have "invs g ! j = Blocked \<or> invs g ! j = Holding"
      by (cases "j = k") auto
    from inv_idle [OF inv j this] show "j \<notin> fst ` set (trace ?g')" by simp
  next
    fix j assume "j < n" "holds_mutex (invs ?g' ! j) \<and> j \<in> fst ` set (trace ?g')"
    with free show "last (map fst (trace ?g')) = j" by blast
  next
    fix j assume "j \<in> fst ` set (trace ?g')"
    with inv_ids [OF inv] show "j < n" by simp
  next
    show "not_interleaved (trace ?g')" using inv_ni [OF inv] by simp
  next
    fix j cy' assume j: "j < n" and h: "invs ?g' ! j = Cycling cy' \<or> invs ?g' ! j = Exited cy'"
    show "\<exists>items. api j = Inr items \<and> cycle_inv (rt j) c items cy'"
    proof (cases "j = k")
      case True
      with h nth [OF j] v' show ?thesis by auto
    next
      case False
      with h nth [OF j] inv_cycle [OF inv j] show ?thesis by simp
    qed
  next
    fix j cy' assume j: "j < n" and h: "invs ?g' ! j = Exited cy'"
    show "pc cy' = Returned"
    proof (cases "j = k")
      case True
      with h nth [OF j] v' show ?thesis by auto
    next
      case False
      with h nth [OF j] inv_exited [OF inv j] show ?thesis by simp
    qed
  qed
qed

lemma collector_inv_Unlock:
  assumes inv: "collector_inv api rt c n g"
    and st: "Metrics_step api rt c (Unlock k) g = Some (Inr g')"
  shows "collector_inv api rt c n g'"
proof -
  from st have k: "k < length (invs g)"
    by (auto simp: Metrics_step_def split: if_splits)
  from k inv_len [OF inv] have kn: "k < n" by simp
  show ?thesis
  proof (cases "invs g ! k")
    case (Cycling cy)
    with st k have ret: "pc cy = Returned"
      and g': "g' = g\<lparr>mutex := False, invs := (invs g)[k := Exited cy]\<rparr>"
      by (auto simp: Metrics_step_def split: if_splits)
    have hk: "holds_mutex (invs g ! k)" using Cycling by simp
    from inv_cycle [OF inv kn] Cycling ret
    have "Exited cy = Aborted undefined \<or>
          (Exited cy = Exited cy \<and> pc cy = Returned \<and>
           (\<exists>items. api k = Inr items \<and> cycle_inv (rt k) c items cy))"
      by simp
    from collector_inv_release [OF inv kn hk this] show ?thesis by (simp add: g')
  next
    case (Unwinding p)
    with st k have g': "g' = g\<lparr>mutex := False, invs := (invs g)[k := Aborted p]\<rparr>"
      by (simp add: Metrics_step_def)
    have hk: "holds_mutex (invs g ! k)" using Unwinding by simp
    have "Aborted p = Aborted p \<or>
          (Aborted p = Exited undefined \<and> pc undefined = Returned \<and>
           (\<exists>items. api k = Inr items \<and> cycle_inv (rt k) c items undefined))"
      by simp
    from collector_inv_release [OF inv kn hk this] show ?thesis by (simp add: g')
  next
    case Blocked
    with st k show ?thesis by (simp add: Metrics_step_def)
  next
    case Holding
    with st k show ?thesis by (simp add: Metrics_step_def)
  next
    case (Exited cy)
    with st k show ?thesis by (simp add: Metrics_step_def)
  next
    case (Aborted p)
    with st k show ?thesis by (simp add: Metrics_step_def)
  qed
qed

lemma collector_inv_Exit:
  "Metrics_step api rt c (Exit k) g \<noteq> Some (Inr g')"
  by (auto simp: Metrics_step_def split: if_splits invocation.splits)

lemma collector_inv_step:
  assumes inv: "collector_inv api rt c n g"
    and st: "Metrics_step api rt c mv g = Some (Inr g')"
  shows "collector_inv api rt c n g'"
proof (cases mv)
  case (Lock k)
  with inv st show ?thesis by (auto intro: collector_inv_Lock)
next
  case (ListPods k)
  with inv st show ?thesis by (auto intro: collector_inv_ListPods)
next
  case (Cycle k a)
  with inv st show ?thesis by (auto intro: collector_inv_Cycle)
next
  case (Unlock k)
  with inv st show ?thesis by (auto intro: collector_inv_Unlock)
next
  case (Exit k)
  with st collector_inv_Exit show ?thesis by blast
qed

lemma collector_inv_run:
  "collector_inv api rt c n g \<Longrightarrow> Metrics_run api rt c mvs g = Some (g', x) \<Longrightarrow>
     collector_inv api rt c n g'"
proof (induction mvs arbitrary: g)
  case Nil
  then show ?case by simp
next
  case (Cons mv mvs)
  then show ?case
    by (auto split: option.splits sum.splits dest: collector_inv_step)
qed

text \<open>
  The process exits only by a goroutine whose deferred \<^verbatim>\<open>Done()\<close> has run, or by
  a call whose deferred \<^verbatim>\<open>Unlock()\<close> has run.
\<close>

lemma Collect_step_exit:
  "Collect_step rt c a s = Some (Inl p) \<Longrightarrow> \<exists>i < length (tasks s). tasks s ! i = Dying p"
  by (auto simp: Collect_step_def
      split: action.splits main_pc.splits list.splits if_splits task.splits sum.splits)

lemma Metrics_step_exit:
  assumes st: "Metrics_step api rt c mv g = Some (Inl p)"
  shows "\<exists>k < length (invs g).
           invs g ! k = Aborted p \<or>
           (\<exists>cy i. (invs g ! k = Cycling cy \<or> invs g ! k = Exited cy) \<and>
                   i < length (tasks cy) \<and> tasks cy ! i = Dying p)"
proof (cases mv)
  case (Lock k)
  with st show ?thesis by (simp add: Metrics_step_def split: if_splits)
next
  case (ListPods k)
  with st show ?thesis by (simp add: Metrics_step_def split: if_splits sum.splits)
next
  case (Cycle k a)
  with st have k: "k < length (invs g)"
    by (simp add: Metrics_step_def split: if_splits)
  from st Cycle k obtain cy where
    cy: "invs g ! k = Cycling cy \<or> invs g ! k = Exited cy"
    and step: "Collect_step (rt k) c a cy = Some (Inl p)"
    by (auto simp: Metrics_step_def split: invocation.splits option.splits sum.splits)
  from Collect_step_exit [OF step] obtain i where
    "i < length (tasks cy)" "tasks cy ! i = Dying p" by blast
  with k cy show ?thesis by blast
next
  case (Unlock k)
  with st show ?thesis
    by (simp add: Metrics_step_def split: if_splits invocation.splits)
next
  case (Exit k)
  with st have "k < length (invs g)" "invs g ! k = Aborted p"
    by (auto simp: Metrics_step_def split: if_splits invocation.splits)
  then show ?thesis by blast
qed

lemma Metrics_run_exit:
  "Metrics_run api rt c mvs g = Some (g', Some p) \<Longrightarrow>
     \<exists>mv. Metrics_step api rt c mv g' = Some (Inl p)"
proof (induction mvs arbitrary: g)
  case Nil
  then show ?case by simp
next
  case (Cons mv mvs)
  then show ?case by (auto split: option.splits sum.splits)
qed
section \<open>The claims\<close>

text \<open>
  C1. The claim: on success the metric's value is the round-trip time in milliseconds,
  on failure it is \<open>-1\<close>. The code stores \<^verbatim>\<open>float64(duration)\<close>, and a
  \<^verbatim>\<open>time.Duration\<close> counts nanoseconds: a probe answered after 5 milliseconds is
  reported as 5000000, under a metric named and documented as milliseconds.
\<close>

theorem C1_success_value_is_nanoseconds:
  "healthCheck rt_ok NewMetrics pod_a =
     Inr \<lparr>requests = [''http://10.0.0.1:8080/healthz''],
          sent = [\<lparr>desc = health_desc, valType = GaugeValue, val = 5000000,
                  labelValues = [''default'', ''svcA'', ''a''],
                  timestamp = Some 1715059230118\<rparr>]\<rparr>"
  by (simp add: example_defs healthCheck_defs)

text \<open>
  C2, the claim as stated: an unset or empty scheme field yields \<open>http\<close>. It does not:
  the code compares the field with \<^verbatim>\<open>URISchemeHTTP\<close> and takes \<open>https\<close> for
  everything else, the empty string included.
\<close>

theorem C2_empty_scheme_counterexample:
  "first_httpGet pod_noscheme =
     Some \<lparr>Path = ''/healthz'', Port = FromInt32 8080, Host = '''', Scheme = ''''\<rparr> \<and>
   healthCheck rt_ok NewMetrics pod_noscheme =
     Inr \<lparr>requests = [''https://10.0.0.3:8080/healthz''],
          sent = [\<lparr>desc = health_desc, valType = GaugeValue, val = 5000000,
                  labelValues = [''default'', ''svcC'', ''c''],
                  timestamp = Some 1715059230118\<rparr>]\<rparr>"
  by (simp add: example_defs healthCheck_defs first_httpGet_def)

text \<open>
  C2, amended. For every pod whose first container declares an HTTPGet liveness probe,
  the scheme of the requested URL is \<open>http\<close> exactly when the probe's scheme field is
  \<open>HTTP\<close>; for every other value of the field, \<open>HTTPS\<close> and the empty string
  included, it is \<open>https\<close>. The rest of the URL is the pod IP, a colon, the port's
  \<^verbatim>\<open>IntVal\<close> in decimal, and the path.
\<close>

theorem C2_scheme_http_iff_HTTP:
  assumes "first_httpGet pod = Some hg"
  shows "\<exists>m. healthCheck r NewMetrics pod =
           Inr \<lparr>requests = [(if Scheme hg = ''HTTP'' then ''http://'' else ''https://'')
                              @ PodIP (Status pod) @ '':''
                              @ Itoa (sint (IntVal (Port hg))) @ Path hg],
                sent = [m]\<rparr>"
  using healthCheck_httpGet [OF assms, of r]
  by (auto simp: target_url_def URISchemeHTTP_def)

text \<open>C2 at a pod that declares the HTTPS scheme.\<close>

theorem C2_scheme_http_iff_HTTP_witness:
  "first_httpGet pod_https =
     Some \<lparr>Path = ''/healthz'', Port = FromInt32 8443, Host = '''', Scheme = ''HTTPS''\<rparr> \<and>
   (\<exists>m. healthCheck rt_ok NewMetrics pod_https =
          Inr \<lparr>requests = [''https://10.0.0.6:8443/healthz''], sent = [m]\<rparr>)"
proof -
  have h: "first_httpGet pod_https =
     Some \<lparr>Path = ''/healthz'', Port = FromInt32 8443, Host = '''', Scheme = ''HTTPS''\<rparr>"
    by (simp add: example_defs first_httpGet_def)
  from C2_scheme_http_iff_HTTP [OF h, of rt_ok] show ?thesis
    using h by (simp add: example_defs Itoa_def digits.simps)
qed

text \<open>
  C3. The claim: a pod with an empty container list is skipped silently, without a
  panic, and every other pod's sample is still produced. The code indexes
  \<^verbatim>\<open>spec.Containers[0]\<close> before any check: \<^verbatim>\<open>healthCheck\<close> panics on such a
  pod, and in a cycle over pod \<open>a\<close> and such a pod the process can end before the
  sample of pod \<open>a\<close> is written.
\<close>

theorem C3_empty_containers_panics:
  "healthCheck rt_ok NewMetrics pod_nocontainer = Inl IndexOutOfRange \<and>
   Collect_Metrics (\<lambda>i. rt_ok) NewMetrics (Inr [pod_a, pod_nocontainer])
       [Spawn, Spawn, Run 1, Run 1, Run 1] =
     Some (Inl IndexOutOfRange)"
  by (simp add: cycle_defs example_defs healthCheck_defs)

text \<open>
  C4, the claim as stated: a pod with an HTTPGet liveness probe and no pod IP gets no
  sample. It gets one: the pod IP is never looked at before the request is made.
\<close>

theorem C4_empty_ip_counterexample:
  "first_httpGet pod_noip =
     Some \<lparr>Path = ''/healthz'', Port = FromInt32 8080, Host = '''', Scheme = ''HTTP''\<rparr> \<and>
   PodIP (Status pod_noip) = '''' \<and>
   Collect_Metrics (\<lambda>i. rt_fail) NewMetrics (Inr [pod_noip]) [Spawn, Run 0, Run 0, Run 0, Wait] =
     Some (Inr \<lparr>pc = Returned, tasks = [Finished], wg = 0,
                ch = [(0, \<lparr>desc = health_desc, valType = GaugeValue, val = - 1,
                           labelValues = [''default'', ''svcE'', ''e''],
                           timestamp = Some 1715059230118\<rparr>)]\<rparr>)"
  by (simp add: cycle_defs example_defs healthCheck_defs first_httpGet_def)

text \<open>
  C4, amended. For every pod whose first container declares an HTTPGet liveness probe
  and whose pod IP is empty, whatever the runtime and the other pods of the list:
  \<^verbatim>\<open>healthCheck\<close> requests a URL with an empty host and sends exactly one sample,
  with the pod's labels, whose value is \<open>-1\<close> when that request failed. In a cycle,
  some schedule makes \<^verbatim>\<open>Collect\<close> return; at every moment the channel holds either
  nothing of that pod or that one sample; a cycle that has not returned has a next move,
  no cycle has more than \<open>1 + 5 * n\<close> moves, every cycle can run on until
  \<^verbatim>\<open>Collect\<close> returns, and when it has returned the sample is on the channel. When
  every listed pod has a first container, no schedule ends in a panic. What happens to
  the sample when some other pod of the list has no container is the matter of C3 and is
  left open here.
\<close>

theorem C4_empty_ip_one_sample:
  assumes i: "i < length items"
    and hg: "first_httpGet (items ! i) = Some hg"
    and ip: "PodIP (Status (items ! i)) = ''''"
  shows "\<exists>m. healthCheck (rt i) NewMetrics (items ! i) =
               Inr \<lparr>requests = [(if Scheme hg = ''HTTP'' then ''http://'' else ''https://'')
                                  @ '':'' @ Itoa (sint (IntVal (Port hg))) @ Path hg],
                    sent = [m]\<rparr> \<and>
             labelValues m = pod_labels (items ! i) \<and>
             (err (Get (rt i) ((if Scheme hg = ''HTTP'' then ''http://'' else ''https://'')
                                @ '':'' @ Itoa (sint (IntVal (Port hg))) @ Path hg)) \<noteq> None
                \<longrightarrow> val m = - 1) \<and>
             (\<exists>sched s. Collect_Metrics rt NewMetrics (Inr items) sched = Some (Inr s) \<and>
                         pc s = Returned) \<and>
             (\<forall>sched s.
                Collect_Metrics rt NewMetrics (Inr items) sched = Some (Inr s) \<longrightarrow>
                length sched \<le> 1 + 5 * length items \<and>
                (sent_by i (ch s) = [] \<or> sent_by i (ch s) = [m]) \<and>
                (pc s = Returned \<longrightarrow> sent_by i (ch s) = [m]) \<and>
                (pc s \<noteq> Returned \<longrightarrow>
                   (\<exists>a s'. Collect_Metrics rt NewMetrics (Inr items) (sched @ [a]) =
                              Some (Inr s'))) \<and>
                (\<exists>more s'. Collect_Metrics rt NewMetrics (Inr items) (sched @ more) =
                              Some (Inr s') \<and> pc s' = Returned)) \<and>
             ((\<forall>p \<in> set items. Containers (Spec p) \<noteq> []) \<longrightarrow>
                (\<forall>sched p. Collect_Metrics rt NewMetrics (Inr items) sched \<noteq> Some (Inl p)))"
proof -
  let ?url = "(if Scheme hg = ''HTTP'' then ''http://'' else ''https://'')
                @ '':'' @ Itoa (sint (IntVal (Port hg))) @ Path hg"
  let ?m = "\<lparr>desc = health_desc, valType = GaugeValue,
             val = float64 (sint (if err (Get (rt i) ?url) \<noteq> None then - 1
                                  else Since (rt i) ?url)),
             labelValues = pod_labels (items ! i),
             timestamp = Some (Now (rt i))\<rparr>"
  have url: "target_url (items ! i) hg = ?url"
    using ip by (simp add: target_url_def URISchemeHTTP_def)
  have hc: "healthCheck (rt i) NewMetrics (items ! i) = Inr \<lparr>requests = [?url], sent = [?m]\<rparr>"
    using healthCheck_httpGet [OF hg, of "rt i"] unfolding url .
  have lab: "labelValues ?m = pod_labels (items ! i)" by simp
  have neg: "err (Get (rt i) ?url) \<noteq> None \<longrightarrow> val ?m = - 1"
    by (simp add: float64_minus1)
  have "Collect_Metrics rt NewMetrics (Inr items) [] =
          Some (Inr \<lparr>pc = ForRange items, tasks = [], wg = 0, ch = []\<rparr>)"
    by (simp add: Collect_Metrics_def Collect_init_def)
  from Collect_extends [OF this]
  have ex: "\<exists>sched s. Collect_Metrics rt NewMetrics (Inr items) sched = Some (Inr s) \<and>
                       pc s = Returned"
    by auto
  have every: "length sched \<le> 1 + 5 * length items \<and>
               (sent_by i (ch s) = [] \<or> sent_by i (ch s) = [?m]) \<and>
               (pc s = Returned \<longrightarrow> sent_by i (ch s) = [?m]) \<and>
               (pc s \<noteq> Returned \<longrightarrow>
                  (\<exists>a s'. Collect_Metrics rt NewMetrics (Inr items) (sched @ [a]) =
                             Some (Inr s'))) \<and>
               (\<exists>more s'. Collect_Metrics rt NewMetrics (Inr items) (sched @ more) =
                             Some (Inr s') \<and> pc s' = Returned)"
    if run: "Collect_Metrics rt NewMetrics (Inr items) sched = Some (Inr s)" for sched s
  proof -
    have 1: "length sched \<le> 1 + 5 * length items"
      by (rule Collect_length [OF run])
    have 2: "sent_by i (ch s) = [] \<or> sent_by i (ch s) = [?m]"
    proof (cases "sent_by i (ch s) = []")
      case True
      then show ?thesis by simp
    next
      case False
      then obtain m' where "(i, m') \<in> set (ch s)"
        using sent_by_nonempty by blast
      from Collect_sample_origin [OF run this] hc show ?thesis by auto
    qed
    have 3: "sent_by i (ch s) = [?m]" if "pc s = Returned"
      using Collect_Returned_sent [OF run that i] hc by simp
    have 4: "\<exists>a s'. Collect_Metrics rt NewMetrics (Inr items) (sched @ [a]) = Some (Inr s')"
      if "pc s \<noteq> Returned"
      by (rule Collect_progress [OF run that])
    have 5: "\<exists>more s'. Collect_Metrics rt NewMetrics (Inr items) (sched @ more) =
                          Some (Inr s') \<and> pc s' = Returned"
      by (rule Collect_extends [OF run])
    from 1 2 3 4 5 show ?thesis by (intro conjI impI)
  qed
  have safe: "Collect_Metrics rt NewMetrics (Inr items) sched \<noteq> Some (Inl p)"
    if "\<forall>p \<in> set items. Containers (Spec p) \<noteq> []" for sched p
    by (rule Collect_no_panic [OF that])
  show ?thesis
  proof (rule exI [where x = ?m], intro conjI)
    show "healthCheck (rt i) NewMetrics (items ! i) = Inr \<lparr>requests = [?url], sent = [?m]\<rparr>"
      by (rule hc)
    show "labelValues ?m = pod_labels (items ! i)" by (rule lab)
    show "err (Get (rt i) ?url) \<noteq> None \<longrightarrow> val ?m = - 1" by (rule neg)
    show "\<exists>sched s. Collect_Metrics rt NewMetrics (Inr items) sched = Some (Inr s) \<and>
                     pc s = Returned"
      by (rule ex)
    show "\<forall>sched s.
            Collect_Metrics rt NewMetrics (Inr items) sched = Some (Inr s) \<longrightarrow>
            length sched \<le> 1 + 5 * length items \<and>
            (sent_by i (ch s) = [] \<or> sent_by i (ch s) = [?m]) \<and>
            (pc s = Returned \<longrightarrow> sent_by i (ch s) = [?m]) \<and>
            (pc s \<noteq> Returned \<longrightarrow>
               (\<exists>a s'. Collect_Metrics rt NewMetrics (Inr items) (sched @ [a]) =
                          Some (Inr s'))) \<and>
            (\<exists>more s'. Collect_Metrics rt NewMetrics (Inr items) (sched @ more) =
                          Some (Inr s') \<and> pc s' = Returned)"
      using every by (intro allI impI)
    show "(\<forall>p \<in> set items. Containers (Spec p) \<noteq> []) \<longrightarrow>
            (\<forall>sched p. Collect_Metrics rt NewMetrics (Inr items) sched \<noteq> Some (Inl p))"
      using safe by (intro allI impI)
  qed
qed

text \<open>
  C4 at a cycle over pod \<open>b\<close> and a pod without an IP, every GET failing: the cycle
  returns with the one sample of the pod without an IP, and half way it has a next move.
\<close>

theorem C4_empty_ip_one_sample_witness:
  "(1 :: nat) < length [pod_b, pod_noip] \<and>
   first_httpGet ([pod_b, pod_noip] ! 1) =
     Some \<lparr>Path = ''/healthz'', Port = FromInt32 8080, Host = '''', Scheme = ''HTTP''\<rparr> \<and>
   PodIP (Status ([pod_b, pod_noip] ! 1)) = '''' \<and>
   Containers (Spec pod_b) \<noteq> [] \<and> Containers (Spec pod_noip) \<noteq> [] \<and>
   err (Get rt_fail ''http://:8080/healthz'') \<noteq> None \<and>
   Collect_Metrics (\<lambda>i. rt_fail) NewMetrics (Inr [pod_b, pod_noip])
       [Spawn, Spawn, Run 1, Run 0, Run 1, Run 0, Run 1, Wait] =
     Some (Inr \<lparr>pc = Returned, tasks = [Finished, Finished], wg = 0,
                ch = [(1, \<lparr>desc = health_desc, valType = GaugeValue, val = - 1,
                           labelValues = [''default'', ''svcE'', ''e''],
                           timestamp = Some 1715059230118\<rparr>)]\<rparr>) \<and>
   Collect_Metrics (\<lambda>i. rt_fail) NewMetrics (Inr [pod_b, pod_noip]) [Spawn, Spawn, Run 1] =
     Some (Inr \<lparr>pc = ForRange [],
                tasks = [Start pod_b,
                         Sending [\<lparr>desc = health_desc, valType = GaugeValue, val = - 1,
                                   labelValues = [''default'', ''svcE'', ''e''],
                                   timestamp = Some 1715059230118\<rparr>]],
                wg = 2, ch = []\<rparr>) \<and>
   (\<exists>m. healthCheck rt_fail NewMetrics pod_noip =
          Inr \<lparr>requests = [''http://:8080/healthz''], sent = [m]\<rparr> \<and>
        labelValues m = [''default'', ''svcE'', ''e''] \<and> val m = - 1 \<and>
        sent_by 1
          [(1 :: nat, \<lparr>desc = health_desc, valType = GaugeValue, val = - 1,
                 labelValues = [''default'', ''svcE'', ''e''],
                 timestamp = Some 1715059230118\<rparr>)] = [m]) \<and>
   (\<exists>a s'. Collect_Metrics (\<lambda>i. rt_fail) NewMetrics (Inr [pod_b, pod_noip])
              ([Spawn, Spawn, Run 1] @ [a]) = Some (Inr s')) \<and>
   (\<exists>more s'. Collect_Metrics (\<lambda>i. rt_fail) NewMetrics (Inr [pod_b, pod_noip])
                 ([Spawn, Spawn, Run 1] @ more) = Some (Inr s') \<and> pc s' = Returned) \<and>
   Collect_Metrics (\<lambda>i. rt_fail) NewMetrics (Inr [pod_b, pod_noip])
       [Spawn, Spawn, Run 1, Run 1, Run 1, Run 1] \<noteq> Some (Inl IndexOutOfRange)"
proof -
  let ?rt = "\<lambda>i :: nat. rt_fail"
  let ?items = "[pod_b, pod_noip]"
  let ?hg = "\<lparr>Path = ''/healthz'', Port = FromInt32 8080, Host = '''', Scheme = ''HTTP''\<rparr>"
  let ?e = "\<lparr>desc = health_desc, valType = GaugeValue, val = - 1,
             labelValues = [''default'', ''svcE'', ''e''],
             timestamp = Some 1715059230118\<rparr>"
  let ?s = "\<lparr>pc = Returned, tasks = [Finished, Finished], wg = 0, ch = [(1 :: nat, ?e)]\<rparr>"
  let ?h = "\<lparr>pc = ForRange [], tasks = [Start pod_b, Sending [?e]], wg = 2, ch = []\<rparr>"
  have i: "(1 :: nat) < length ?items" by simp
  have hg: "first_httpGet (?items ! 1) = Some ?hg"
    by (simp add: example_defs first_httpGet_def)
  have ip: "PodIP (Status (?items ! 1)) = ''''"
    by (simp add: example_defs)
  have cs: "Containers (Spec pod_b) \<noteq> []" "Containers (Spec pod_noip) \<noteq> []"
    by (simp_all add: example_defs)
  then have all: "\<forall>p \<in> set ?items. Containers (Spec p) \<noteq> []" by simp
  have url: "(if Scheme ?hg = ''HTTP'' then ''http://'' else ''https://'')
               @ '':'' @ Itoa (sint (IntVal (Port ?hg))) @ Path ?hg = ''http://:8080/healthz''"
    by (simp add: FromInt32_def Itoa_def digits.simps)
  have fail: "err (Get rt_fail ''http://:8080/healthz'') \<noteq> None"
    by (simp add: rt_fail_def)
  have run: "Collect_Metrics ?rt NewMetrics (Inr ?items)
               [Spawn, Spawn, Run 1, Run 0, Run 1, Run 0, Run 1, Wait] = Some (Inr ?s)"
    by (simp add: cycle_defs example_defs healthCheck_defs)
  have half: "Collect_Metrics ?rt NewMetrics (Inr ?items) [Spawn, Spawn, Run 1] = Some (Inr ?h)"
    by (simp add: cycle_defs example_defs healthCheck_defs)
  have ret: "pc ?s = Returned" and live: "pc ?h \<noteq> Returned" by simp_all
  have labs: "pod_labels (?items ! 1) = [''default'', ''svcE'', ''e'']"
    by (simp add: pod_labels_def example_defs)
  from C4_empty_ip_one_sample [where rt = ?rt, OF i hg ip]
  obtain m where hc: "healthCheck (?rt 1) NewMetrics (?items ! 1) =
                        Inr \<lparr>requests = [''http://:8080/healthz''], sent = [m]\<rparr>"
    and lab: "labelValues m = pod_labels (?items ! 1)"
    and neg: "err (Get (?rt 1) ''http://:8080/healthz'') \<noteq> None \<longrightarrow> val m = - 1"
    and every: "\<forall>sched s.
        Collect_Metrics ?rt NewMetrics (Inr ?items) sched = Some (Inr s) \<longrightarrow>
        length sched \<le> 1 + 5 * length ?items \<and>
        (sent_by 1 (ch s) = [] \<or> sent_by 1 (ch s) = [m]) \<and>
        (pc s = Returned \<longrightarrow> sent_by 1 (ch s) = [m]) \<and>
        (pc s \<noteq> Returned \<longrightarrow>
           (\<exists>a s'. Collect_Metrics ?rt NewMetrics (Inr ?items) (sched @ [a]) = Some (Inr s'))) \<and>
        (\<exists>more s'. Collect_Metrics ?rt NewMetrics (Inr ?items) (sched @ more) = Some (Inr s') \<and>
                    pc s' = Returned)"
    and safe: "(\<forall>p \<in> set ?items. Containers (Spec p) \<noteq> []) \<longrightarrow>
        (\<forall>sched p. Collect_Metrics ?rt NewMetrics (Inr ?items) sched \<noteq> Some (Inl p))"
    unfolding url by (elim exE conjE) (rule that; assumption)
  from neg fail have v: "val m = - 1" by (rule mp)
  note at_end = every [THEN spec, THEN spec, THEN mp, OF run]
  note at_half = every [THEN spec, THEN spec, THEN mp, OF half]
  from at_end [THEN conjunct2, THEN conjunct2, THEN conjunct1] ret
  have one: "sent_by 1 (ch ?s) = [m]" by (rule mp)
  from at_half [THEN conjunct2, THEN conjunct2, THEN conjunct2, THEN conjunct1] live
  have next_move: "\<exists>a s'. Collect_Metrics ?rt NewMetrics (Inr ?items)
                            ([Spawn, Spawn, Run 1] @ [a]) = Some (Inr s')"
    by (rule mp)
  from at_half [THEN conjunct2, THEN conjunct2, THEN conjunct2, THEN conjunct2]
  have on: "\<exists>more s'. Collect_Metrics ?rt NewMetrics (Inr ?items)
                         ([Spawn, Spawn, Run 1] @ more) = Some (Inr s') \<and> pc s' = Returned" .
  from safe all
  have "\<forall>sched p. Collect_Metrics ?rt NewMetrics (Inr ?items) sched \<noteq> Some (Inl p)"
    by (rule mp)
  then have nopanic: "Collect_Metrics ?rt NewMetrics (Inr ?items)
                        [Spawn, Spawn, Run 1, Run 1, Run 1, Run 1] \<noteq> Some (Inl IndexOutOfRange)"
    by (elim allE)
  have hc': "healthCheck rt_fail NewMetrics pod_noip =
               Inr \<lparr>requests = [''http://:8080/healthz''], sent = [m]\<rparr>"
    using hc by simp
  have lab': "labelValues m = [''default'', ''svcE'', ''e'']"
    using lab labs by simp
  have one': "sent_by 1 [(1 :: nat, ?e)] = [m]"
    using one by simp
  from hc' lab' v one'
  have sample: "\<exists>m. healthCheck rt_fail NewMetrics pod_noip =
                       Inr \<lparr>requests = [''http://:8080/healthz''], sent = [m]\<rparr> \<and>
                     labelValues m = [''default'', ''svcE'', ''e''] \<and> val m = - 1 \<and>
                     sent_by 1 [(1 :: nat, ?e)] = [m]"
    by (intro exI conjI)
  from i hg ip cs fail run half sample next_move on nopanic show ?thesis
    by (intro conjI)
qed

text \<open>
  C5. The claim: every pod with an HTTPGet liveness probe gets exactly one sample per
  cycle, whatever the outcome of its probe, and \<^verbatim>\<open>Collect\<close> returns only after all
  samples have been written. A cycle that returns has written them (see C4 and C7), but
  the panic of C3 can end the process first: in a cycle over pod \<open>a\<close> and a pod
  without containers, pod \<open>a\<close> has been probed and its sample is ready to be sent when
  the other goroutine, its deferred \<^verbatim>\<open>Done()\<close> run, ends the process. Nothing has
  been written for pod \<open>a\<close>, and \<^verbatim>\<open>Collect\<close> has not returned.
\<close>

theorem C5_panic_drops_sample:
  "first_httpGet pod_a =
     Some \<lparr>Path = ''/healthz'', Port = FromInt32 8080, Host = '''', Scheme = ''HTTP''\<rparr> \<and>
   Collect_Metrics (\<lambda>i. rt_ok) NewMetrics (Inr [pod_a, pod_nocontainer])
       [Spawn, Spawn, Run 0, Run 1, Run 1] =
     Some (Inr \<lparr>pc = ForRange [],
                tasks = [Sending [metric_a 5000000], Dying IndexOutOfRange],
                wg = 1, ch = []\<rparr>) \<and>
   Collect_Metrics (\<lambda>i. rt_ok) NewMetrics (Inr [pod_a, pod_nocontainer])
       [Spawn, Spawn, Run 0, Run 1, Run 1, Run 1] =
     Some (Inl IndexOutOfRange)"
  by (simp add: cycle_defs example_defs healthCheck_defs first_httpGet_def metric_a_def)

text \<open>
  C6. At every moment of every cycle: nothing has been written for a pod whose first
  container has no HTTPGet liveness probe (no liveness probe, or one without an HTTPGet
  action, or no container at all), and every sample on the channel was sent by the
  goroutine of one pod of the list, which declares such a probe; the sample carries that
  pod's namespace, \<open>app\<close> label and name, and it is the only sample of that pod.
\<close>

theorem C6_samples_only_for_probed_pods:
  assumes run: "Collect_Metrics rt NewMetrics (Inr items) sched = Some (Inr s)"
  shows "(\<forall>i. i < length items \<and> first_httpGet (items ! i) = None \<longrightarrow> sent_by i (ch s) = []) \<and>
         (\<forall>x \<in> set (ch s).
            fst x < length items \<and> first_httpGet (items ! fst x) \<noteq> None \<and>
            labelValues (snd x) = pod_labels (items ! fst x) \<and>
            sent_by (fst x) (ch s) = [snd x])"
proof -
  have origin: "i < length items \<and> first_httpGet (items ! i) \<noteq> None \<and>
                labelValues m = pod_labels (items ! i) \<and> sent_by i (ch s) = [m]"
    if "(i, m) \<in> set (ch s)" for i m
  proof -
    from Collect_sample_origin [OF run that] obtain hg where
      i: "i < length items" and hg: "first_httpGet (items ! i) = Some hg"
      and hc: "healthCheck (rt i) NewMetrics (items ! i) =
                 Inr \<lparr>requests = [target_url (items ! i) hg], sent = [m]\<rparr>"
      and one: "sent_by i (ch s) = [m]"
      by blast
    from hc healthCheck_httpGet [OF hg, of "rt i"] have "labelValues m = pod_labels (items ! i)"
      by auto
    with i hg one show ?thesis by simp
  qed
  have none: "sent_by i (ch s) = []" if "first_httpGet (items ! i) = None" for i
  proof (rule ccontr)
    assume "sent_by i (ch s) \<noteq> []"
    then obtain m where "(i, m) \<in> set (ch s)"
      using sent_by_nonempty by blast
    from origin [OF this] that show False by simp
  qed
  from origin none show ?thesis by auto
qed

text \<open>C6 in the middle of a cycle over pods \<open>a\<close> and \<open>b\<close>.\<close>

theorem C6_samples_only_for_probed_pods_witness:
  "Collect_Metrics (\<lambda>i. rt_fail) NewMetrics (Inr [pod_a, pod_b])
       [Spawn, Run 0, Run 0, Spawn, Run 1] =
     Some (Inr \<lparr>pc = ForRange [], tasks = [Sending [], Sending []], wg = 2,
                ch = [(0, \<lparr>desc = health_desc, valType = GaugeValue, val = - 1,
                           labelValues = [''default'', ''svcA'', ''a''],
                           timestamp = Some 1715059230118\<rparr>)]\<rparr>) \<and>
   first_httpGet ([pod_a, pod_b] ! 1) = None \<and>
   sent_by 1
     [(0 :: nat, \<lparr>desc = health_desc, valType = GaugeValue, val = - 1,
            labelValues = [''default'', ''svcA'', ''a''],
            timestamp = Some 1715059230118\<rparr>)] = [] \<and>
   pod_labels ([pod_a, pod_b] ! 0) = [''default'', ''svcA'', ''a'']"
proof -
  let ?m = "\<lparr>desc = health_desc, valType = GaugeValue, val = - 1,
              labelValues = [''default'', ''svcA'', ''a''],
              timestamp = Some 1715059230118\<rparr>"
  let ?s = "\<lparr>pc = ForRange [], tasks = [Sending [], Sending []], wg = 2,
              ch = [(0 :: nat, ?m)]\<rparr>"
  have run: "Collect_Metrics (\<lambda>i. rt_fail) NewMetrics (Inr [pod_a, pod_b])
       [Spawn, Run 0, Run 0, Spawn, Run 1] = Some (Inr ?s)"
    by (simp add: cycle_defs example_defs healthCheck_defs)
  have none: "first_httpGet ([pod_a, pod_b] ! 1) = None"
    by (simp add: example_defs first_httpGet_def)
  have i: "(1 :: nat) < length [pod_a, pod_b]" by simp
  have mem: "(0 :: nat, ?m) \<in> set (ch ?s)" by simp
  from C6_samples_only_for_probed_pods [OF run]
  have a: "\<forall>i. i < length [pod_a, pod_b] \<and> first_httpGet ([pod_a, pod_b] ! i) = None
             \<longrightarrow> sent_by i (ch ?s) = []"
    and b: "\<forall>x \<in> set (ch ?s). labelValues (snd x) = pod_labels ([pod_a, pod_b] ! fst x)"
    by blast+
  from a i none have "sent_by 1 (ch ?s) = []" by blast
  moreover from b mem have "labelValues ?m = pod_labels ([pod_a, pod_b] ! 0)"
    by fastforce
  ultimately show ?thesis using run none by simp
qed



text \<open>
  C8, the claim as stated: whenever the GET returns a response, the sample's value is not
  negative. It can be \<open>-1\<close>: Go's client returns the last response together with an
  error when it stops following redirects, and the code looks at the error alone.
\<close>

theorem C8_response_with_error_counterexample:
  "first_httpGet pod_a =
     Some \<lparr>Path = ''/healthz'', Port = FromInt32 8080, Host = '''', Scheme = ''HTTP''\<rparr> \<and>
   Get rt_redirect ''http://10.0.0.1:8080/healthz'' =
     \<lparr>resp = Some \<lparr>StatusCode = 302\<rparr>, err = Some ''stopped after 10 redirects''\<rparr> \<and>
   healthCheck rt_redirect NewMetrics pod_a =
     Inr \<lparr>requests = [''http://10.0.0.1:8080/healthz''],
          sent = [\<lparr>desc = health_desc, valType = GaugeValue, val = - 1,
                  labelValues = [''default'', ''svcA'', ''a''],
                  timestamp = Some 1715059230118\<rparr>]\<rparr>"
  by (simp add: example_defs healthCheck_defs first_httpGet_def rt_redirect_def)

text \<open>
  C8, amended. For every pod whose first container declares an HTTPGet liveness probe,
  one GET is made and one sample is sent, and its value depends on the error of the GET
  alone. When the GET returns no error, whatever the status code of the response, the
  value is the conversion of what \<^verbatim>\<open>time.Since\<close> read, which is not negative when
  that reading is not negative (Go reads a monotonic clock). When the GET returns an
  error, with or without a response, the value is \<open>-1\<close>. \<^verbatim>\<open>healthCheck\<close> never
  looks at the response: replacing the responses of the runtime by any others changes
  nothing.
\<close>

theorem C8_value_depends_on_error_only:
  assumes "first_httpGet pod = Some hg"
  shows "\<exists>m. healthCheck r NewMetrics pod =
               Inr \<lparr>requests = [target_url pod hg], sent = [m]\<rparr> \<and>
             (err (Get r (target_url pod hg)) = None \<longrightarrow>
                val m = float64 (sint (Since r (target_url pod hg))) \<and>
                (0 \<le> sint (Since r (target_url pod hg)) \<longrightarrow> 0 \<le> val m)) \<and>
             (err (Get r (target_url pod hg)) \<noteq> None \<longrightarrow> val m = - 1) \<and>
             (\<forall>f. healthCheck (r\<lparr>Get := \<lambda>u. (Get r u)\<lparr>resp := f u\<rparr>\<rparr>) NewMetrics pod =
                    healthCheck r NewMetrics pod)"
  by (simp add: healthCheck_httpGet [OF assms] float64_nonneg float64_minus1)

text \<open>
  C8 at pod \<open>a\<close>: answered with status 500 and no error, the value is the 7
  milliseconds read from the clock; answered with a redirect and an error, it is \<open>-1\<close>.
\<close>

theorem C8_value_depends_on_error_only_witness:
  "first_httpGet pod_a =
     Some \<lparr>Path = ''/healthz'', Port = FromInt32 8080, Host = '''', Scheme = ''HTTP''\<rparr> \<and>
   Get (rt_status 500) ''http://10.0.0.1:8080/healthz'' =
     \<lparr>resp = Some \<lparr>StatusCode = 500\<rparr>, err = None\<rparr> \<and>
   0 \<le> sint (Since (rt_status 500) ''http://10.0.0.1:8080/healthz'') \<and>
   (\<exists>m. healthCheck (rt_status 500) NewMetrics pod_a =
          Inr \<lparr>requests = [''http://10.0.0.1:8080/healthz''], sent = [m]\<rparr> \<and>
        0 \<le> val m \<and> val m = 7000000) \<and>
   Get rt_redirect ''http://10.0.0.1:8080/healthz'' =
     \<lparr>resp = Some \<lparr>StatusCode = 302\<rparr>, err = Some ''stopped after 10 redirects''\<rparr> \<and>
   (\<exists>m. healthCheck rt_redirect NewMetrics pod_a =
          Inr \<lparr>requests = [''http://10.0.0.1:8080/healthz''], sent = [m]\<rparr> \<and>
        val m = - 1)"
proof -
  let ?hg = "\<lparr>Path = ''/healthz'', Port = FromInt32 8080, Host = '''', Scheme = ''HTTP''\<rparr>"
  let ?url = "''http://10.0.0.1:8080/healthz''"
  have hg: "first_httpGet pod_a = Some ?hg"
    by (simp add: example_defs first_httpGet_def)
  have url: "target_url pod_a ?hg = ?url"
    by (simp add: target_url_def example_defs URISchemeHTTP_def Itoa_def digits.simps)
  have get: "Get (rt_status 500) ?url = \<lparr>resp = Some \<lparr>StatusCode = 500\<rparr>, err = None\<rparr>"
    by (simp add: rt_status_def)
  have ok: "err (Get (rt_status 500) ?url) = None"
    by (simp add: rt_status_def)
  have since: "0 \<le> sint (Since (rt_status 500) ?url)"
    by (simp add: rt_status_def)
  have v: "float64 (sint (Since (rt_status 500) ?url)) = 7000000"
    by (simp add: rt_status_def float64_def)
  have get': "Get rt_redirect ?url =
                \<lparr>resp = Some \<lparr>StatusCode = 302\<rparr>, err = Some ''stopped after 10 redirects''\<rparr>"
    by (simp add: rt_redirect_def)
  have failed: "err (Get rt_redirect ?url) \<noteq> None"
    by (simp add: rt_redirect_def)
  from C8_value_depends_on_error_only [OF hg, of "rt_status 500"]
  obtain m where hc: "healthCheck (rt_status 500) NewMetrics pod_a =
                        Inr \<lparr>requests = [?url], sent = [m]\<rparr>"
    and noerr: "err (Get (rt_status 500) ?url) = None \<longrightarrow>
                  val m = float64 (sint (Since (rt_status 500) ?url)) \<and>
                  (0 \<le> sint (Since (rt_status 500) ?url) \<longrightarrow> 0 \<le> val m)"
    unfolding url by (elim exE conjE) (rule that; assumption)
  from noerr ok
  have val: "val m = float64 (sint (Since (rt_status 500) ?url)) \<and>
             (0 \<le> sint (Since (rt_status 500) ?url) \<longrightarrow> 0 \<le> val m)"
    by (rule mp)
  from val [THEN conjunct2] since have pos: "0 \<le> val m" by (rule mp)
  from val [THEN conjunct1] v have seven: "val m = 7000000" by simp
  from hc pos seven
  have a: "\<exists>m. healthCheck (rt_status 500) NewMetrics pod_a =
                  Inr \<lparr>requests = [?url], sent = [m]\<rparr> \<and> 0 \<le> val m \<and> val m = 7000000"
    by (intro exI conjI)
  from C8_value_depends_on_error_only [OF hg, of rt_redirect]
  obtain m' where hc': "healthCheck rt_redirect NewMetrics pod_a =
                          Inr \<lparr>requests = [?url], sent = [m']\<rparr>"
    and witherr: "err (Get rt_redirect ?url) \<noteq> None \<longrightarrow> val m' = - 1"
    unfolding url by (elim exE conjE) (rule that; assumption)
  from witherr failed have "val m' = - 1" by (rule mp)
  with hc'
  have b: "\<exists>m. healthCheck rt_redirect NewMetrics pod_a =
                  Inr \<lparr>requests = [?url], sent = [m]\<rparr> \<and> val m = - 1"
    by (intro exI conjI)
  from hg get since a get' b show ?thesis by (intro conjI)
qed

text \<open>
  C9. For any number of concurrent calls of \<^verbatim>\<open>Collect\<close> on one collector and every
  interleaving of their moves, in the state where the run has got to or where a panic
  has ended the process: the fetches and channel writes of different calls never
  interleave (each call's events are one block of the trace); at most one call is
  between its \<^verbatim>\<open>Lock\<close> and its deferred \<^verbatim>\<open>Unlock\<close>; while one is, also while
  it panics after a failed listing, no other call can get the mutex; a call that is
  still blocked has neither fetched nor written, and cannot; a call that has returned
  has started a goroutine for every pod, each of them is over (it has returned, or it
  has panicked and run its deferred \<^verbatim>\<open>Done()\<close>), and none of them writes any more;
  a call that panics after a failed listing can run its deferred \<^verbatim>\<open>Unlock\<close>, which
  frees the mutex; and the process exits only by a call whose deferred \<^verbatim>\<open>Unlock\<close>
  has run or by a goroutine whose deferred \<^verbatim>\<open>Done()\<close> has run.
\<close>

theorem C9_calls_of_Collect_exclude_each_other:
  assumes run: "Metrics_run api rt c moves (collector_init n) = Some (g, x)"
  shows "not_interleaved (trace g) \<and>
         (\<forall>j < n. \<forall>k < n. holds_mutex (invs g ! j) \<and> holds_mutex (invs g ! k) \<longrightarrow> j = k) \<and>
         (\<forall>j < n. \<forall>k. holds_mutex (invs g ! j) \<longrightarrow> Metrics_step api rt c (Lock k) g = None) \<and>
         (\<forall>k < n. \<forall>a. invs g ! k = Blocked \<longrightarrow>
            k \<notin> fst ` set (trace g) \<and>
            Metrics_step api rt c (ListPods k) g = None \<and>
            Metrics_step api rt c (Cycle k a) g = None) \<and>
         (\<forall>k < n. \<forall>cy. invs g ! k = Exited cy \<longrightarrow>
            pc cy = Returned \<and> list_all task_over (tasks cy) \<and>
            (\<exists>items. api k = Inr items \<and> length (tasks cy) = length items) \<and>
            (\<forall>a g'. Metrics_step api rt c (Cycle k a) g \<noteq> Some (Inr g'))) \<and>
         (\<forall>k < n. \<forall>p. invs g ! k = Unwinding p \<longrightarrow>
            Metrics_step api rt c (Unlock k) g =
              Some (Inr (g\<lparr>mutex := False, invs := (invs g)[k := Aborted p]\<rparr>))) \<and>
         (\<forall>p. x = Some p \<longrightarrow>
            (\<exists>k < n. invs g ! k = Aborted p \<or>
               (\<exists>cy i. (invs g ! k = Cycling cy \<or> invs g ! k = Exited cy) \<and>
                       i < length (tasks cy) \<and> tasks cy ! i = Dying p)))"
proof -
  from collector_inv_run [OF collector_inv_init run]
  have inv: "collector_inv api rt c n g" .
  note len = inv_len [OF inv]
  have 1: "not_interleaved (trace g)" by (rule inv_ni [OF inv])
  have 2: "j = k" if "j < n" "k < n" "holds_mutex (invs g ! j)" "holds_mutex (invs g ! k)" for j k
    using inv_unique [OF inv that] .
  have 3: "Metrics_step api rt c (Lock k) g = None" if "j < n" "holds_mutex (invs g ! j)" for j k
  proof -
    from inv_mutex [OF inv] that have "mutex g" by auto
    then show ?thesis by (simp add: Metrics_step_def)
  qed
  have 4: "k \<notin> fst ` set (trace g) \<and>
           Metrics_step api rt c (ListPods k) g = None \<and>
           Metrics_step api rt c (Cycle k a) g = None" if "k < n" "invs g ! k = Blocked" for k a
    using inv_idle [OF inv that(1)] that(2) by (simp add: Metrics_step_def)
  have 5: "pc cy = Returned \<and> list_all task_over (tasks cy) \<and>
           (\<exists>items. api k = Inr items \<and> length (tasks cy) = length items) \<and>
           (\<forall>a g'. Metrics_step api rt c (Cycle k a) g \<noteq> Some (Inr g'))"
    if k: "k < n" and e: "invs g ! k = Exited cy" for k cy
  proof -
    from inv_cycle [OF inv k] e obtain items where api: "api k = Inr items"
      and ci: "cycle_inv (rt k) c items cy"
      by auto
    from inv_exited [OF inv k e] have r: "pc cy = Returned" .
    from cycle_Returned_over [OF ci r]
    have over: "length (tasks cy) = length items" "list_all task_over (tasks cy)"
      by simp_all
    have still: "Metrics_step api rt c (Cycle k a) g \<noteq> Some (Inr g')" for a g'
      using Exited_no_step [OF inv k e, of a] k len e
      by (auto simp: Metrics_step_def split: option.splits sum.splits)
    from r over api still show ?thesis by blast
  qed
  have 6: "Metrics_step api rt c (Unlock k) g =
             Some (Inr (g\<lparr>mutex := False, invs := (invs g)[k := Aborted p]\<rparr>))"
    if "k < n" "invs g ! k = Unwinding p" for k p
    using that len by (simp add: Metrics_step_def)
  have 7: "\<exists>k < n. invs g ! k = Aborted p \<or>
             (\<exists>cy i. (invs g ! k = Cycling cy \<or> invs g ! k = Exited cy) \<and>
                     i < length (tasks cy) \<and> tasks cy ! i = Dying p)"
    if "x = Some p" for p
  proof -
    from run that Metrics_run_exit obtain mv where "Metrics_step api rt c mv g = Some (Inl p)"
      by blast
    from Metrics_step_exit [OF this] len show ?thesis by simp
  qed
  show ?thesis
  proof (intro conjI allI impI)
    show "not_interleaved (trace g)" by (rule 1)
  next
    fix j k assume "j < n" "k < n" "holds_mutex (invs g ! j) \<and> holds_mutex (invs g ! k)"
    then show "j = k" using 2 by blast
  next
    fix j k assume "j < n" "holds_mutex (invs g ! j)"
    then show "Metrics_step api rt c (Lock k) g = None" by (rule 3)
  next
    fix k a assume k: "k < n" "invs g ! k = Blocked"
    from 4 [OF k] show "k \<notin> fst ` set (trace g)" by simp
    from 4 [OF k] show "Metrics_step api rt c (ListPods k) g = None" by simp
    from 4 [OF k] show "Metrics_step api rt c (Cycle k a) g = None" by simp
  next
    fix k cy assume k: "k < n" "invs g ! k = Exited cy"
    from 5 [OF k] show "pc cy = Returned" by simp
    from 5 [OF k] show "list_all task_over (tasks cy)" by simp
    from 5 [OF k] show "\<exists>items. api k = Inr items \<and> length (tasks cy) = length items" by simp
    fix a g'
    from 5 [OF k] show "Metrics_step api rt c (Cycle k a) g \<noteq> Some (Inr g')" by simp
  next
    fix k p assume "k < n" "invs g ! k = Unwinding p"
    then show "Metrics_step api rt c (Unlock k) g =
                 Some (Inr (g\<lparr>mutex := False, invs := (invs g)[k := Aborted p]\<rparr>))"
      by (rule 6)
  next
    fix p assume "x = Some p"
    then show "\<exists>k < n. invs g ! k = Aborted p \<or>
                 (\<exists>cy i. (invs g ! k = Cycling cy \<or> invs g ! k = Exited cy) \<and>
                         i < length (tasks cy) \<and> tasks cy ! i = Dying p)"
      by (rule 7)
  qed
qed

text \<open>
  C9 at three calls, on both fatal paths. Call 0 lists pod \<open>a\<close> and a pod without
  containers; the goroutine of the latter panics and runs its deferred \<^verbatim>\<open>Done()\<close>,
  and the call returns before the process has exited. Call 1 cannot lock before that; it
  then gets the mutex, its listing fails, and while it panics call 2 is still blocked.
  The process can exit there by the panic of the goroutine of call 0.
\<close>

theorem C9_calls_of_Collect_exclude_each_other_witness:
  "Metrics_run (\<lambda>k. if k = 0 then Inr [pod_a, pod_nocontainer] else Inl ''api down'')
       (\<lambda>k i. rt_ok) NewMetrics
       [Lock 0, ListPods 0, Cycle 0 Spawn, Cycle 0 Spawn, Cycle 0 (Run 0), Cycle 0 (Run 0),
        Cycle 0 (Run 0), Cycle 0 (Run 1), Cycle 0 (Run 1), Cycle 0 Wait, Unlock 0,
        Lock 1, ListPods 1] (collector_init 3) = Some (collector_mid, None) \<and>
   Metrics_run (\<lambda>k. if k = 0 then Inr [pod_a, pod_nocontainer] else Inl ''api down'')
       (\<lambda>k i. rt_ok) NewMetrics
       [Lock 0, ListPods 0, Cycle 0 Spawn, Cycle 0 Spawn, Cycle 0 (Run 0), Cycle 0 (Run 0),
        Cycle 0 (Run 0), Cycle 0 (Run 1), Cycle 0 (Run 1), Cycle 0 Wait, Unlock 0,
        Lock 1, ListPods 1, Cycle 0 (Run 1)] (collector_init 3) =
     Some (collector_mid, Some IndexOutOfRange) \<and>
   Metrics_run (\<lambda>k. if k = 0 then Inr [pod_a, pod_nocontainer] else Inl ''api down'')
       (\<lambda>k i. rt_ok) NewMetrics [Lock 0, Lock 1] (collector_init 3) = None \<and>
   holds_mutex (invs collector_mid ! 1) \<and>
   not_interleaved (trace collector_mid) \<and>
   Metrics_step (\<lambda>k. if k = 0 then Inr [pod_a, pod_nocontainer] else Inl ''api down'')
     (\<lambda>k i. rt_ok) NewMetrics (Lock 2) collector_mid = None \<and>
   invs collector_mid ! 2 = Blocked \<and> 2 \<notin> fst ` set (trace collector_mid) \<and>
   Metrics_step (\<lambda>k. if k = 0 then Inr [pod_a, pod_nocontainer] else Inl ''api down'')
     (\<lambda>k i. rt_ok) NewMetrics (ListPods 2) collector_mid = None \<and>
   list_all task_over [Finished, Dying IndexOutOfRange] \<and>
   invs collector_mid ! 1 = Unwinding (ListFailed ''api down'') \<and>
   Metrics_step (\<lambda>k. if k = 0 then Inr [pod_a, pod_nocontainer] else Inl ''api down'')
     (\<lambda>k i. rt_ok) NewMetrics (Unlock 1) collector_mid =
     Some (Inr (collector_mid
       \<lparr>mutex := False,
        invs := (invs collector_mid)[1 := Aborted (ListFailed ''api down'')]\<rparr>)) \<and>
   (\<exists>k < 3. invs collector_mid ! k = Aborted IndexOutOfRange \<or>
      (\<exists>cy i. (invs collector_mid ! k = Cycling cy \<or> invs collector_mid ! k = Exited cy) \<and>
              i < length (tasks cy) \<and> tasks cy ! i = Dying IndexOutOfRange))"
proof -
  let ?api = "\<lambda>k :: nat. if k = 0 then Inr [pod_a, pod_nocontainer]
                           else (Inl ''api down'' :: string + Pod list)"
  let ?rt = "\<lambda>(k :: nat) (i :: nat). rt_ok"
  let ?moves = "[Lock 0, ListPods 0, Cycle 0 Spawn, Cycle 0 Spawn, Cycle 0 (Run 0),
                 Cycle 0 (Run 0), Cycle 0 (Run 0), Cycle 0 (Run 1), Cycle 0 (Run 1),
                 Cycle 0 Wait, Unlock 0, Lock 1, ListPods 1]"
  let ?cy = "\<lparr>pc = Returned, tasks = [Finished, Dying IndexOutOfRange], wg = 0,
              ch = [(0 :: nat, metric_a 5000000)]\<rparr>"
  have init: "collector_init 3 = \<lparr>mutex = False, invs = [Blocked, Blocked, Blocked], trace = []\<rparr>"
    by (simp add: collector_init_def numeral_3_eq_3)
  have run: "Metrics_run ?api ?rt NewMetrics ?moves (collector_init 3) =
               Some (collector_mid, None)"
    by (simp add: init Metrics_step_def Collect_init_def Collect_step_def collector_mid_def
        metric_a_def example_defs healthCheck_defs)
  have dead: "Metrics_run ?api ?rt NewMetrics
                [Lock 0, ListPods 0, Cycle 0 Spawn, Cycle 0 Spawn, Cycle 0 (Run 0),
                 Cycle 0 (Run 0), Cycle 0 (Run 0), Cycle 0 (Run 1), Cycle 0 (Run 1),
                 Cycle 0 Wait, Unlock 0, Lock 1, ListPods 1, Cycle 0 (Run 1)]
                (collector_init 3) =
                Some (collector_mid, Some IndexOutOfRange)"
    by (simp add: init Metrics_step_def Collect_init_def Collect_step_def collector_mid_def
        metric_a_def example_defs healthCheck_defs)
  have blocked: "Metrics_run ?api ?rt NewMetrics [Lock 0, Lock 1] (collector_init 3) = None"
    by (simp add: init Metrics_step_def)
  have h: "holds_mutex (invs collector_mid ! 1)"
    and b: "invs collector_mid ! 2 = Blocked"
    and e: "invs collector_mid ! 0 = Exited ?cy"
    and u: "invs collector_mid ! 1 = Unwinding (ListFailed ''api down'')"
    by (simp_all add: collector_mid_def)
  have lt: "(0 :: nat) < 3" "(1 :: nat) < 3" "(2 :: nat) < 3" by simp_all
  note here = C9_calls_of_Collect_exclude_each_other [OF run]
  note there = C9_calls_of_Collect_exclude_each_other [OF dead]
  from here have ni: "not_interleaved (trace collector_mid)"
    by (rule conjunct1)
  from here [THEN conjunct2, THEN conjunct2, THEN conjunct1, rule_format, OF lt(2) h]
  have l2: "Metrics_step ?api ?rt NewMetrics (Lock 2) collector_mid = None" .
  from here [THEN conjunct2, THEN conjunct2, THEN conjunct2, THEN conjunct1, rule_format,
      OF lt(3) b]
  have i2: "2 \<notin> fst ` set (trace collector_mid)"
    "Metrics_step ?api ?rt NewMetrics (ListPods 2) collector_mid = None"
    by simp_all
  from here [THEN conjunct2, THEN conjunct2, THEN conjunct2, THEN conjunct2, THEN conjunct1,
      rule_format, OF lt(1) e]
  have "list_all task_over (tasks ?cy)" by simp
  then have over: "list_all task_over [Finished, Dying IndexOutOfRange]" by simp
  from here [THEN conjunct2, THEN conjunct2, THEN conjunct2, THEN conjunct2, THEN conjunct2,
      THEN conjunct1, rule_format, OF lt(2) u]
  have unl: "Metrics_step ?api ?rt NewMetrics (Unlock 1) collector_mid =
               Some (Inr (collector_mid
                 \<lparr>mutex := False,
                  invs := (invs collector_mid)[1 := Aborted (ListFailed ''api down'')]\<rparr>))" .
  from there [THEN conjunct2, THEN conjunct2, THEN conjunct2, THEN conjunct2, THEN conjunct2,
      THEN conjunct2, rule_format, OF refl]
  have ex: "\<exists>k < 3. invs collector_mid ! k = Aborted IndexOutOfRange \<or>
              (\<exists>cy i. (invs collector_mid ! k = Cycling cy \<or> invs collector_mid ! k = Exited cy) \<and>
                      i < length (tasks cy) \<and> tasks cy ! i = Dying IndexOutOfRange)" .
  from run dead blocked h ni l2 b i2 over u unl ex show ?thesis
    by (intro conjI)
qed

text \<open>
  C10. For every pod whose first container's HTTPGet liveness probe declares its port by
  name, the probe is still made, and the requested URL is the scheme, the pod IP,
  \<open>:0\<close> and the path: the code reads the port's \<^verbatim>\<open>IntVal\<close>, which is zero for a
  named port.
\<close>

theorem C10_named_port_targets_port_0:
  assumes "first_httpGet pod = Some hg" and "Port hg = FromString name"
  shows "\<exists>m. healthCheck r NewMetrics pod =
           Inr \<lparr>requests = [(if Scheme hg = ''HTTP'' then ''http://'' else ''https://'')
                              @ PodIP (Status pod) @ '':0'' @ Path hg],
                sent = [m]\<rparr>"
  using healthCheck_httpGet [OF assms(1), of r] assms(2)
  by (auto simp: target_url_def URISchemeHTTP_def FromString_def Itoa_def digits.simps)

text \<open>C10 at a pod whose probe names its port \<open>web\<close>.\<close>

theorem C10_named_port_targets_port_0_witness:
  "first_httpGet pod_namedport =
     Some \<lparr>Path = ''/healthz'', Port = FromString ''web'', Host = '''', Scheme = ''HTTP''\<rparr> \<and>
   (\<exists>m. healthCheck rt_fail NewMetrics pod_namedport =
          Inr \<lparr>requests = [''http://10.0.0.5:0/healthz''], sent = [m]\<rparr>)"
proof -
  have h: "first_httpGet pod_namedport =
     Some \<lparr>Path = ''/healthz'', Port = FromString ''web'', Host = '''', Scheme = ''HTTP''\<rparr>"
    by (simp add: example_defs first_httpGet_def)
  from C10_named_port_targets_port_0 [OF h, of "''web''" rt_fail] show ?thesis
    using h by (simp add: example_defs)
qed

end
